theory Spec2Isabelle
  imports Main "HOL-Library.Char_ord" "HOL-Library.List_Lexorder" "HOL-Library.Sublist"
begin

section \<open>The data model (internal/models/models.go, server package)\<close>

text \<open>
  Strings are Go strings read as byte sequences; their order is the bytewise
  lexicographic order that \<^verbatim>\<open>sort.Strings\<close> uses. A \<^verbatim>\<open>time.Time\<close> is an instant
  on the integer line, \<^verbatim>\<open>After\<close> is \<open>>\<close>, and the zero time is \<open>0\<close>. The
  calls \<^verbatim>\<open>time.Now()\<close> and \<^verbatim>\<open>uuid.New().String()\<close> are arguments of the
  operations that make them.
\<close>

type_synonym Time = int

text \<open>
  \<^verbatim>\<open>Client\<close>: the hub only reads \<^verbatim>\<open>Username\<close> and \<^verbatim>\<open>Send\<close>. The channel
  is a reference; \<open>Client_Send\<close> is its address in the channel store of the hub
  state. Every \<^verbatim>\<open>Client\<close> is built in \<^verbatim>\<open>HandleWebSocket\<close> around a channel
  of its own, so the pointer comparison \<^verbatim>\<open>existingClient == client\<close> is equality
  of these records.
\<close>

record Client =
  Client_Username :: string
  Client_Send :: nat

record User =
  User_Username :: string
  User_Online :: bool
  User_CurrentConn :: "Client option"
  User_LastSeen :: Time

record Message =
  Message_ID :: string
  Message_From :: string
  Message_To :: string
  Message_Content :: string
  Message_Timestamp :: Time
  Message_Status :: string

record Conversation =
  PeerUsername :: string
  LastMessagePreview :: string
  LastMessageTime :: Time
  PeerOnline :: bool
  UnreadCount :: int

record InboundMessage =
  InboundMessage_To :: string
  InboundMessage_Content :: string
  InboundMessage_TempID :: string

text \<open>
  \<^verbatim>\<open>OutboundMessage.Timestamp\<close> is the RFC3339 rendering of the message's time;
  the model keeps the instant that is rendered.
\<close>

record OutboundMessage =
  OutboundMessage_ID :: string
  OutboundMessage_From :: string
  OutboundMessage_To :: string
  OutboundMessage_Content :: string
  OutboundMessage_Timestamp :: Time
  OutboundMessage_Status :: string

record TypingEvent =
  TypingEvent_From :: string
  TypingEvent_To :: string
  TypingEvent_IsTyping :: bool

record StatusEvent =
  StatusEvent_Username :: string
  StatusEvent_Online :: bool

record AckEvent =
  AckEvent_MessageID :: string
  AckEvent_Status :: string

record TypingEventWrapper =
  Wrapper_From :: string
  Wrapper_To :: string
  Wrapper_IsTyping :: bool

text \<open>The \<^verbatim>\<open>interface{}\<close> payload of an envelope: one variant per struct the hub sends.\<close>

datatype Payload =
    POutboundMessage OutboundMessage
  | PTypingEvent TypingEvent
  | PStatusEvent StatusEvent
  | PAckEvent AckEvent

record WSMessage =
  WSMessage_Type :: string
  WSMessage_Payload :: Payload

text \<open>
  A buffered Go channel of frames. A frame is the JSON encoding of an envelope;
  \<^verbatim>\<open>json.Marshal\<close> does not fail on these payloads, and the model keeps the
  envelope that was encoded. The capacity is fixed when the channel is made
  (\<^verbatim>\<open>make(chan []byte, 256)\<close> in \<^verbatim>\<open>HandleWebSocket\<close>).
\<close>

record Chan =
  Chan_buf :: "WSMessage list"
  Chan_cap :: nat
  Chan_closed :: bool

text \<open>
  The hub state: the three maps of \<^verbatim>\<open>Hub\<close>, and the store of the channels
  the clients refer to (the part of Go's heap the hub reads and writes through
  \<^verbatim>\<open>client.Send\<close>). The event channels of \<^verbatim>\<open>Hub\<close> carry the calls and hold
  no state of their own here.
\<close>

record Hub =
  Clients :: "string \<rightharpoonup> Client"
  Users :: "string \<rightharpoonup> User"
  Conversations :: "string \<rightharpoonup> Message list"
  chans :: "nat \<Rightarrow> Chan"

text \<open>The two run-time panics of Go channels that the hub's code can reach.\<close>

datatype error = SendOnClosedChannel | CloseOfClosedChannel

text \<open>
  \<^verbatim>\<open>for k := range m\<close> visits every key of the map once, in an order Go does
  not specify. Each range below takes the order as a list of keys; an entry that
  an earlier iteration deleted is not visited.
\<close>

definition range_order :: "('k \<rightharpoonup> 'v) \<Rightarrow> 'k list \<Rightarrow> bool" where
  "range_order m ks \<longleftrightarrow> distinct ks \<and> set ks = dom m"

section \<open>models.ConvKey\<close>

fun Join :: "string list \<Rightarrow> string \<Rightarrow> string" where
  "Join [] sep = []"
| "Join [x] sep = x"
| "Join (x # y # ys) sep = x @ sep @ Join (y # ys) sep"

definition ConvKey :: "string \<Rightarrow> string \<Rightarrow> string" where
  "ConvKey a b = Join (sort [a, b]) ''|''"

section \<open>The hub (hub.go)\<close>

definition NewHub :: "(nat \<Rightarrow> Chan) \<Rightarrow> Hub" where
  "NewHub store = \<lparr>Clients = Map.empty, Users = Map.empty, Conversations = Map.empty, chans = store\<rparr>"

text \<open>\<^verbatim>\<open>close(ch)\<close> panics on a closed channel.\<close>

definition close_chan :: "Hub \<Rightarrow> nat \<Rightarrow> error + Hub" where
  "close_chan h a =
     (if Chan_closed (chans h a) then Inl CloseOfClosedChannel
      else Inr (h\<lparr>chans := (chans h)(a := (chans h a)\<lparr>Chan_closed := True\<rparr>)\<rparr>))"

text \<open>
  \<^verbatim>\<open>sendToClient\<close>: a \<^verbatim>\<open>select\<close> with a send case and a default. The send
  panics when the channel is closed, is taken when the buffer has room, and
  otherwise the default closes the channel and deletes the table entry of the
  client's username.
\<close>

definition sendToClient :: "Hub \<Rightarrow> Client \<Rightarrow> string \<Rightarrow> Payload \<Rightarrow> error + Hub" where
  "sendToClient h client msgType payload =
     (let wsMsg = \<lparr>WSMessage_Type = msgType, WSMessage_Payload = payload\<rparr>;
          ch = chans h (Client_Send client)
      in if Chan_closed ch then Inl SendOnClosedChannel
         else if length (Chan_buf ch) < Chan_cap ch
         then Inr (h\<lparr>chans := (chans h)(Client_Send client := ch\<lparr>Chan_buf := Chan_buf ch @ [wsMsg]\<rparr>)\<rparr>)
         else Inr (h\<lparr>chans := (chans h)(Client_Send client := ch\<lparr>Chan_closed := True\<rparr>),
                     Clients := (Clients h)(Client_Username client := None)\<rparr>))"

text \<open>\<^verbatim>\<open>broadcastStatus\<close>: the loop over \<^verbatim>\<open>h.Clients\<close>, in the order \<open>ks\<close>.\<close>

fun broadcastStatus_loop :: "string \<Rightarrow> Payload \<Rightarrow> string list \<Rightarrow> Hub \<Rightarrow> error + Hub" where
  "broadcastStatus_loop username ev [] h = Inr h"
| "broadcastStatus_loop username ev (uname # ks) h =
     (case Clients h uname of
        None \<Rightarrow> broadcastStatus_loop username ev ks h
      | Some client \<Rightarrow>
          if uname \<noteq> username
          then (case sendToClient h client ''status'' ev of
                  Inl e \<Rightarrow> Inl e
                | Inr h' \<Rightarrow> broadcastStatus_loop username ev ks h')
          else broadcastStatus_loop username ev ks h)"

definition broadcastStatus :: "Hub \<Rightarrow> string list \<Rightarrow> string \<Rightarrow> bool \<Rightarrow> error + Hub" where
  "broadcastStatus h ks username online =
     broadcastStatus_loop username
       (PStatusEvent \<lparr>StatusEvent_Username = username, StatusEvent_Online = online\<rparr>) ks h"

text \<open>
  The second loop of \<^verbatim>\<open>registerClient\<close>, over \<^verbatim>\<open>h.Users\<close> in the order \<open>us\<close>:
  the online users are replayed to the new client.
\<close>

fun registerClient_replay :: "Client \<Rightarrow> string list \<Rightarrow> Hub \<Rightarrow> error + Hub" where
  "registerClient_replay client [] h = Inr h"
| "registerClient_replay client (uname # us) h =
     (case Users h uname of
        None \<Rightarrow> registerClient_replay client us h
      | Some user \<Rightarrow>
          if uname \<noteq> Client_Username client \<and> User_Online user
          then (case sendToClient h client ''status''
                       (PStatusEvent \<lparr>StatusEvent_Username = uname, StatusEvent_Online = True\<rparr>) of
                  Inl e \<Rightarrow> Inl e
                | Inr h' \<Rightarrow> registerClient_replay client us h')
          else registerClient_replay client us h)"

text \<open>The first block of \<^verbatim>\<open>registerClient\<close>: the old connection is closed and deleted.\<close>

definition registerClient_evict :: "Hub \<Rightarrow> string \<Rightarrow> error + Hub" where
  "registerClient_evict h username =
     (case Users h username of
        None \<Rightarrow> Inr h
      | Some user \<Rightarrow>
          if User_CurrentConn user \<noteq> None
          then (case Clients h username of
                  None \<Rightarrow> Inr h
                | Some oldClient \<Rightarrow>
                    (case close_chan h (Client_Send oldClient) of
                       Inl e \<Rightarrow> Inl e
                     | Inr h' \<Rightarrow> Inr (h'\<lparr>Clients := (Clients h')(username := None)\<rparr>)))
          else Inr h)"

text \<open>The table entry and the presence record are written.\<close>

definition registerClient_install :: "Hub \<Rightarrow> Time \<Rightarrow> Client \<Rightarrow> Hub" where
  "registerClient_install h now client =
     (let username = Client_Username client;
          h1 = h\<lparr>Clients := (Clients h)(username \<mapsto> client)\<rparr>
      in case Users h1 username of
           Some user \<Rightarrow>
             h1\<lparr>Users := (Users h1)(username \<mapsto>
                   user\<lparr>User_Online := True, User_CurrentConn := Some client, User_LastSeen := now\<rparr>)\<rparr>
         | None \<Rightarrow>
             h1\<lparr>Users := (Users h1)(username \<mapsto>
                   \<lparr>User_Username = username, User_Online = True,
                    User_CurrentConn = Some client, User_LastSeen = now\<rparr>)\<rparr>)"

text \<open>
  \<^verbatim>\<open>registerClient\<close>; \<open>ks\<close> is the order of the range over \<^verbatim>\<open>h.Clients\<close> in
  \<^verbatim>\<open>broadcastStatus\<close>, \<open>us\<close> the order of the range over \<^verbatim>\<open>h.Users\<close>.
  The result carries the returned \<^verbatim>\<open>bool\<close>.
\<close>

definition registerClient :: "Hub \<Rightarrow> string list \<Rightarrow> string list \<Rightarrow> Time \<Rightarrow> Client \<Rightarrow> error + (Hub \<times> bool)" where
  "registerClient h ks us now client =
     (let username = Client_Username client
      in case registerClient_evict h username of
           Inl e \<Rightarrow> Inl e
         | Inr h1 \<Rightarrow>
             (case broadcastStatus (registerClient_install h1 now client) ks username True of
                Inl e \<Rightarrow> Inl e
              | Inr h2 \<Rightarrow>
                  (case registerClient_replay client us h2 of
                     Inl e \<Rightarrow> Inl e
                   | Inr h3 \<Rightarrow> Inr (h3, True))))"

text \<open>
  The \<^verbatim>\<open>select\<close> of \<^verbatim>\<open>unregisterClient\<close>: the receive case is ready when the
  buffer holds a frame (which it takes) or when the channel is closed; only
  otherwise the default closes the channel.
\<close>

definition unregisterClient_select :: "Hub \<Rightarrow> nat \<Rightarrow> error + Hub" where
  "unregisterClient_select h a =
     (let ch = chans h a
      in if Chan_buf ch \<noteq> [] then Inr (h\<lparr>chans := (chans h)(a := ch\<lparr>Chan_buf := tl (Chan_buf ch)\<rparr>)\<rparr>)
         else if Chan_closed ch then Inr h
         else close_chan h a)"

definition unregisterClient :: "Hub \<Rightarrow> string list \<Rightarrow> Time \<Rightarrow> Client \<Rightarrow> error + Hub" where
  "unregisterClient h ks now client =
     (let username = Client_Username client
      in case Clients h username of
           None \<Rightarrow> Inr h
         | Some existingClient \<Rightarrow>
             if existingClient = client
             then (let h1 = h\<lparr>Clients := (Clients h)(username := None)\<rparr>;
                       h2 = (case Users h1 username of
                               None \<Rightarrow> h1
                             | Some user \<Rightarrow>
                                 h1\<lparr>Users := (Users h1)(username \<mapsto>
                                       user\<lparr>User_Online := False, User_CurrentConn := None,
                                            User_LastSeen := now\<rparr>)\<rparr>)
                   in case unregisterClient_select h2 (Client_Send client) of
                        Inl e \<Rightarrow> Inl e
                      | Inr h3 \<Rightarrow> broadcastStatus h3 ks username False)
             else Inr h)"

text \<open>
  \<^verbatim>\<open>handleInboundMessageWithSender\<close>. The log holds a pointer to the message, and
  the later assignment \<^verbatim>\<open>message.Status = "delivered"\<close> writes through it: the
  message is the last entry of its log, which \<open>mark_delivered\<close> rewrites.
\<close>

definition log_of :: "Hub \<Rightarrow> string \<Rightarrow> Message list" where
  "log_of h key = (case Conversations h key of None \<Rightarrow> [] | Some ms \<Rightarrow> ms)"

definition mark_delivered :: "Hub \<Rightarrow> string \<Rightarrow> Hub" where
  "mark_delivered h key =
     (let ms = log_of h key
      in if ms = [] then h
         else h\<lparr>Conversations := (Conversations h)(key \<mapsto>
                   butlast ms @ [(last ms)\<lparr>Message_Status := ''delivered''\<rparr>])\<rparr>)"

definition handleInboundMessageWithSender ::
    "Hub \<Rightarrow> string \<Rightarrow> Time \<Rightarrow> string \<Rightarrow> InboundMessage \<Rightarrow> error + Hub" where
  "handleInboundMessageWithSender h newID now from msg =
     (let message = \<lparr>Message_ID = newID, Message_From = from, Message_To = InboundMessage_To msg,
                     Message_Content = InboundMessage_Content msg, Message_Timestamp = now,
                     Message_Status = ''sent''\<rparr>;
          convKey = ConvKey from (InboundMessage_To msg);
          h1 = h\<lparr>Conversations := (Conversations h)(convKey \<mapsto> log_of h convKey @ [message])\<rparr>;
          senderOutboundMsg = \<lparr>OutboundMessage_ID = Message_ID message,
                               OutboundMessage_From = Message_From message,
                               OutboundMessage_To = Message_To message,
                               OutboundMessage_Content = Message_Content message,
                               OutboundMessage_Timestamp = Message_Timestamp message,
                               OutboundMessage_Status = Message_Status message\<rparr>;
          senderClient = Clients h1 from;
          recipientClient = Clients h1 (InboundMessage_To msg)
      in case (case senderClient of
                 None \<Rightarrow> Inr h1
               | Some sc \<Rightarrow> sendToClient h1 sc ''message'' (POutboundMessage senderOutboundMsg)) of
           Inl e \<Rightarrow> Inl e
         | Inr h2 \<Rightarrow>
             (case recipientClient of
                None \<Rightarrow> Inr h2
              | Some rc \<Rightarrow>
                  (let recipientOutboundMsg = \<lparr>OutboundMessage_ID = Message_ID message,
                                               OutboundMessage_From = Message_From message,
                                               OutboundMessage_To = Message_To message,
                                               OutboundMessage_Content = Message_Content message,
                                               OutboundMessage_Timestamp = Message_Timestamp message,
                                               OutboundMessage_Status = ''delivered''\<rparr>
                   in case sendToClient h2 rc ''message'' (POutboundMessage recipientOutboundMsg) of
                        Inl e \<Rightarrow> Inl e
                      | Inr h3 \<Rightarrow>
                          (let h4 = mark_delivered h3 convKey
                           in case senderClient of
                                None \<Rightarrow> Inr h4
                              | Some sc \<Rightarrow>
                                  sendToClient h4 sc ''ack''
                                    (PAckEvent \<lparr>AckEvent_MessageID = Message_ID message,
                                                AckEvent_Status = ''delivered''\<rparr>)))))"

definition handleTypingEvent :: "Hub \<Rightarrow> TypingEventWrapper \<Rightarrow> error + Hub" where
  "handleTypingEvent h event =
     (case Clients h (Wrapper_To event) of
        Some recipientClient \<Rightarrow>
          sendToClient h recipientClient ''typing''
            (PTypingEvent \<lparr>TypingEvent_From = Wrapper_From event, TypingEvent_To = [],
                           TypingEvent_IsTyping = Wrapper_IsTyping event\<rparr>)
      | None \<Rightarrow> Inr h)"

section \<open>The queries\<close>

text \<open>
  \<^verbatim>\<open>sort.Slice\<close> with the comparison \<open>lt\<close>: the library promises a
  permutation in which no element is \<open>lt\<close> one before it, and no
  stability. The model sorts by insertion; only the promise is used below.
\<close>

fun insert_Slice :: "('a \<Rightarrow> 'a \<Rightarrow> bool) \<Rightarrow> 'a \<Rightarrow> 'a list \<Rightarrow> 'a list" where
  "insert_Slice lt x [] = [x]"
| "insert_Slice lt x (y # ys) =
     (if lt y x then y # insert_Slice lt x ys else x # y # ys)"

fun sort_Slice :: "('a \<Rightarrow> 'a \<Rightarrow> bool) \<Rightarrow> 'a list \<Rightarrow> 'a list" where
  "sort_Slice lt [] = []"
| "sort_Slice lt (x # xs) = insert_Slice lt x (sort_Slice lt xs)"

text \<open>
  The loop of \<^verbatim>\<open>GetConversations\<close> over \<^verbatim>\<open>h.Conversations\<close>, in the order
  \<open>ks\<close>; \<open>seenPeers\<close> is the \<^verbatim>\<open>map[string]bool\<close>, whose missing keys read false.
  \<open>peer_of\<close> is the \<^verbatim>\<open>if/else if/else\<close> that picks the peer; \<open>None\<close> is its
  \<^verbatim>\<open>continue\<close>.
\<close>

definition peer_of :: "Message \<Rightarrow> string \<Rightarrow> string option" where
  "peer_of lastMsg username =
     (if Message_From lastMsg = username then Some (Message_To lastMsg)
      else if Message_To lastMsg = username then Some (Message_From lastMsg)
      else None)"

fun GetConversations_loop ::
    "Hub \<Rightarrow> string \<Rightarrow> string list \<Rightarrow> Conversation list \<Rightarrow> (string \<Rightarrow> bool) \<Rightarrow> Conversation list" where
  "GetConversations_loop h username [] conversations seenPeers = conversations"
| "GetConversations_loop h username (k # ks) conversations seenPeers =
     (case Conversations h k of
        None \<Rightarrow> GetConversations_loop h username ks conversations seenPeers
      | Some messages \<Rightarrow>
          if length messages = 0 then GetConversations_loop h username ks conversations seenPeers
          else
            (let lastMsg = messages ! (length messages - 1)
             in case peer_of lastMsg username of
                  None \<Rightarrow> GetConversations_loop h username ks conversations seenPeers
                | Some peer \<Rightarrow>
                    if seenPeers peer
                    then GetConversations_loop h username ks conversations seenPeers
                    else GetConversations_loop h username ks
                           (conversations @
                              [\<lparr>PeerUsername = peer,
                                LastMessagePreview = Message_Content lastMsg,
                                LastMessageTime = Message_Timestamp lastMsg,
                                PeerOnline = (case Users h peer of None \<Rightarrow> False
                                              | Some user \<Rightarrow> User_Online user),
                                UnreadCount = 0\<rparr>])
                           (seenPeers(peer := True))))"

definition GetConversations :: "Hub \<Rightarrow> string list \<Rightarrow> string \<Rightarrow> Conversation list" where
  "GetConversations h ks username =
     sort_Slice (\<lambda>a b. LastMessageTime a > LastMessageTime b)
       (GetConversations_loop h username ks [] (\<lambda>_. False))"

text \<open>Reading a missing key of the map gives the nil slice, which has no entries.\<close>

definition GetConversationMessages :: "Hub \<Rightarrow> string \<Rightarrow> string \<Rightarrow> Message list" where
  "GetConversationMessages h username1 username2 = log_of h (ConvKey username1 username2)"

text \<open>
  \<^verbatim>\<open>strings.ToLower\<close>. A string all of whose bytes are below \<^verbatim>\<open>utf8.RuneSelf\<close>
  (128) is lowered byte by byte: \<^verbatim>\<open>A\<close> to \<^verbatim>\<open>Z\<close> gain 32 and every other byte is
  kept. Any other string is handed to the library's rune mapping,
  \<^verbatim>\<open>strings.Map(unicode.ToLower, s)\<close>, which decodes the string and lowers each
  code point by the Unicode case tables (it can change the byte length: the
  three bytes of U+212A become the single byte \<^verbatim>\<open>k\<close>). Those tables are not part
  of this repository, so that mapping is the parameter \<open>mapLower\<close> of everything
  that lowers a string. \<^verbatim>\<open>strings.Contains\<close> looks for the fragment at every
  position.
\<close>

definition toLower_char :: "char \<Rightarrow> char" where
  "toLower_char c =
     (if CHR ''A'' \<le> c \<and> c \<le> CHR ''Z'' then char_of (of_char c + (32::nat)) else c)"

definition isASCII :: "string \<Rightarrow> bool" where
  "isASCII s = list_all (\<lambda>c. of_char c < (128::nat)) s"

definition ToLower :: "(string \<Rightarrow> string) \<Rightarrow> string \<Rightarrow> string" where
  "ToLower mapLower s = (if isASCII s then map toLower_char s else mapLower s)"

fun Contains :: "string \<Rightarrow> string \<Rightarrow> bool" where
  "Contains [] substr = (substr = [])"
| "Contains (c # s) substr = (prefix substr (c # s) \<or> Contains s substr)"

text \<open>
  \<^verbatim>\<open>contains\<close> compares the byte lengths of the two strings as they are given,
  before either is lowered.
\<close>

definition contains :: "(string \<Rightarrow> string) \<Rightarrow> string \<Rightarrow> string \<Rightarrow> bool" where
  "contains mapLower s substr =
     (if length substr = 0 then True
      else if length s < length substr then False
      else Contains (ToLower mapLower s) (ToLower mapLower substr))"

text \<open>
  \<^verbatim>\<open>SearchUsers\<close> ranges over the user table (in the order \<open>ks\<close>) and appends a
  fresh record holding the name and the presence flag of every hit.
\<close>

fun SearchUsers_loop ::
  "(string \<Rightarrow> string) \<Rightarrow> Hub \<Rightarrow> string \<Rightarrow> string \<Rightarrow> string list \<Rightarrow> User list \<Rightarrow> User list" where
  "SearchUsers_loop mapLower h queryLower excludeUsername [] results = results"
| "SearchUsers_loop mapLower h queryLower excludeUsername (k # ks) results =
     (case Users h k of
        None \<Rightarrow> SearchUsers_loop mapLower h queryLower excludeUsername ks results
      | Some user \<Rightarrow>
          if User_Username user = excludeUsername
          then SearchUsers_loop mapLower h queryLower excludeUsername ks results
          else if length queryLower = 0 \<or> contains mapLower (User_Username user) queryLower
          then SearchUsers_loop mapLower h queryLower excludeUsername ks
                 (results @ [\<lparr>User_Username = User_Username user, User_Online = User_Online user,
                               User_CurrentConn = None, User_LastSeen = 0\<rparr>])
          else SearchUsers_loop mapLower h queryLower excludeUsername ks results)"

definition SearchUsers ::
  "(string \<Rightarrow> string) \<Rightarrow> Hub \<Rightarrow> string list \<Rightarrow> string \<Rightarrow> string \<Rightarrow> User list" where
  "SearchUsers mapLower h ks query excludeUsername =
     SearchUsers_loop mapLower h query excludeUsername ks []"

section \<open>Properties: definitions\<close>

text \<open>
  The well-formedness of a hub state. Every entry of the user table is filed
  under the name it carries (\<^verbatim>\<open>registerClient\<close> is the only writer of the table).
\<close>

definition users_wf :: "Hub \<Rightarrow> bool" where
  "users_wf h \<longleftrightarrow> (\<forall>k u. Users h k = Some u \<longrightarrow> User_Username u = k)"

text \<open>
  The specification's reading of the search, stated on the bytes of the two
  strings and not through the program's lowering. Two bytes are the same letter
  when they are equal or are the capital and the small form of one letter of
  \<^verbatim>\<open>A\<close> to \<^verbatim>\<open>Z\<close>. A fragment occurs in a name, case aside, when at some position
  of the name the next bytes, as many as the fragment has, are the same letters
  as the fragment's, one by one.
\<close>

definition capital :: "char \<Rightarrow> bool" where
  "capital c \<longleftrightarrow> CHR ''A'' \<le> c \<and> c \<le> CHR ''Z''"

definition same_letter :: "char \<Rightarrow> char \<Rightarrow> bool" where
  "same_letter a b \<longleftrightarrow>
     a = b \<or> (capital a \<and> of_char b = of_char a + (32::nat))
           \<or> (capital b \<and> of_char a = of_char b + (32::nat))"

definition ci_substring :: "string \<Rightarrow> string \<Rightarrow> bool" where
  "ci_substring q name \<longleftrightarrow>
     list_ex (\<lambda>i. list_all2 same_letter (take (length q) (drop i name)) q) [0..<Suc (length name)]"

text \<open>
  The names of the user table are ASCII: a name reaches the hub from a session,
  and \<^verbatim>\<open>HandleLogin\<close> opens a session only for a name of letters, digits and
  underscores. The fragment of a search is read from the URL as it comes.
\<close>

definition ascii_names :: "Hub \<Rightarrow> bool" where
  "ascii_names h \<longleftrightarrow> (\<forall>k u. Users h k = Some u \<longrightarrow> isASCII k)"

text \<open>The test of the search loop, and the copy it appends.\<close>

definition search_hit :: "(string \<Rightarrow> string) \<Rightarrow> string \<Rightarrow> string \<Rightarrow> User \<Rightarrow> bool" where
  "search_hit mapLower q x u \<longleftrightarrow>
     User_Username u \<noteq> x \<and> (length q = 0 \<or> contains mapLower (User_Username u) q)"

definition search_result :: "User \<Rightarrow> User" where
  "search_result u = \<lparr>User_Username = User_Username u, User_Online = User_Online u,
                      User_CurrentConn = None, User_LastSeen = 0\<rparr>"

definition name_hit :: "(string \<Rightarrow> string) \<Rightarrow> string \<Rightarrow> string \<Rightarrow> string \<Rightarrow> bool" where
  "name_hit mapLower q x n \<longleftrightarrow> n \<noteq> x \<and> (length q = 0 \<or> contains mapLower n q)"

text \<open>
  The fragment U+212A (KELVIN SIGN) in UTF-8, and a user table that knows bob,
  k and kim, all of them offline.
\<close>

definition kelvin_sign :: string where
  "kelvin_sign = [CHR 0xE2, CHR 0x84, CHR 0xAA]"

definition offline_user :: "string \<Rightarrow> Time \<Rightarrow> User" where
  "offline_user name seen =
     \<lparr>User_Username = name, User_Online = False, User_CurrentConn = None, User_LastSeen = seen\<rparr>"

definition hub_kim :: Hub where
  "hub_kim =
     \<lparr>Clients = Map.empty,
      Users = [''bob'' \<mapsto> offline_user ''bob'' 5, ''k'' \<mapsto> offline_user ''k'' 6,
               ''kim'' \<mapsto> offline_user ''kim'' 7],
      Conversations = Map.empty,
      chans = (\<lambda>_. \<lparr>Chan_buf = [], Chan_cap = 256, Chan_closed = False\<rparr>)\<rparr>"

text \<open>
  A registered connection is filed under its own name and its queue is open
  (every path that closes a queue also deletes the entry, or deletes it first).
\<close>

definition clients_wf :: "Hub \<Rightarrow> bool" where
  "clients_wf h \<longleftrightarrow>
     (\<forall>u c. Clients h u = Some c \<longrightarrow>
        Client_Username c = u \<and> \<not> Chan_closed (chans h (Client_Send c)))"

text \<open>Two registered connections do not share a channel.\<close>

definition clients_inj :: "Hub \<Rightarrow> bool" where
  "clients_inj h \<longleftrightarrow>
     (\<forall>u u' c c'. Clients h u = Some c \<longrightarrow> Clients h u' = Some c' \<longrightarrow>
        Client_Send c = Client_Send c' \<longrightarrow> u = u')"

text \<open>A registered connection is the \<^verbatim>\<open>CurrentConn\<close> of its user.\<close>

definition presence_wf :: "Hub \<Rightarrow> bool" where
  "presence_wf h \<longleftrightarrow>
     (\<forall>u c. Clients h u = Some c \<longrightarrow>
        (\<exists>usr. Users h u = Some usr \<and> User_CurrentConn usr = Some c))"

definition hub_inv :: "Hub \<Rightarrow> bool" where
  "hub_inv h \<longleftrightarrow> clients_wf h \<and> clients_inj h \<and> presence_wf h \<and> users_wf h"

text \<open>
  A connection as \<^verbatim>\<open>HandleWebSocket\<close> hands it to the hub: its channel is
  open and no registered connection uses it.
\<close>

definition fresh :: "Hub \<Rightarrow> Client \<Rightarrow> bool" where
  "fresh h client \<longleftrightarrow>
     \<not> Chan_closed (chans h (Client_Send client)) \<and>
     (\<forall>u c. Clients h u = Some c \<longrightarrow> Client_Send c \<noteq> Client_Send client)"

definition registered :: "Hub \<Rightarrow> Client \<Rightarrow> bool" where
  "registered h c \<longleftrightarrow> Clients h (Client_Username c) = Some c"

definition full :: "Hub \<Rightarrow> Client \<Rightarrow> bool" where
  "full h c \<longleftrightarrow>
     Chan_cap (chans h (Client_Send c)) \<le> length (Chan_buf (chans h (Client_Send c)))"

text \<open>The queue of \<open>c\<close> takes \<open>n\<close> more frames.\<close>

definition room :: "Hub \<Rightarrow> Client \<Rightarrow> nat \<Rightarrow> bool" where
  "room h c n \<longleftrightarrow>
     length (Chan_buf (chans h (Client_Send c))) + n \<le> Chan_cap (chans h (Client_Send c))"

text \<open>The two outcomes of a send on an open channel.\<close>

definition envelope :: "string \<Rightarrow> Payload \<Rightarrow> WSMessage" where
  "envelope msgType payload = \<lparr>WSMessage_Type = msgType, WSMessage_Payload = payload\<rparr>"

definition enqueue :: "Hub \<Rightarrow> Client \<Rightarrow> WSMessage \<Rightarrow> Hub" where
  "enqueue h c f = h\<lparr>chans := (chans h)(Client_Send c :=
      (chans h (Client_Send c))\<lparr>Chan_buf := Chan_buf (chans h (Client_Send c)) @ [f]\<rparr>)\<rparr>"

definition disconnect :: "Hub \<Rightarrow> Client \<Rightarrow> Hub" where
  "disconnect h c =
     h\<lparr>chans := (chans h)(Client_Send c := (chans h (Client_Send c))\<lparr>Chan_closed := True\<rparr>),
       Clients := (Clients h)(Client_Username c := None)\<rparr>"

definition deliver :: "Hub \<Rightarrow> Client \<Rightarrow> WSMessage \<Rightarrow> Hub" where
  "deliver h c f = (if full h c then disconnect h c else enqueue h c f)"

text \<open>The frames a queue has gained between two states.\<close>

definition new_frames :: "Hub \<Rightarrow> Hub \<Rightarrow> nat \<Rightarrow> WSMessage list" where
  "new_frames h h' a = drop (length (Chan_buf (chans h a))) (Chan_buf (chans h' a))"

text \<open>States of the scenarios: the users alice (online) and bob (offline), no logs.\<close>

definition empty_chan :: "nat \<Rightarrow> Chan" where
  "empty_chan n = \<lparr>Chan_buf = [], Chan_cap = n, Chan_closed = False\<rparr>"

definition alice_conn :: Client where
  "alice_conn = \<lparr>Client_Username = ''alice'', Client_Send = 1\<rparr>"

definition bob_conn :: Client where
  "bob_conn = \<lparr>Client_Username = ''bob'', Client_Send = 2\<rparr>"

definition hub_alice_online :: Hub where
  "hub_alice_online =
     \<lparr>Clients = [''alice'' \<mapsto> alice_conn],
      Users = [''alice'' \<mapsto> \<lparr>User_Username = ''alice'', User_Online = True,
                               User_CurrentConn = Some alice_conn, User_LastSeen = 10\<rparr>,
               ''bob'' \<mapsto> \<lparr>User_Username = ''bob'', User_Online = False,
                             User_CurrentConn = None, User_LastSeen = 5\<rparr>],
      Conversations = Map.empty,
      chans = (\<lambda>_. empty_chan 2)\<rparr>"

text \<open>
  alice and bob both registered; bob's queue, of capacity one, already holds
  the frame that told him alice is online.
\<close>

definition hub_bob_full :: Hub where
  "hub_bob_full =
     \<lparr>Clients = [''alice'' \<mapsto> alice_conn, ''bob'' \<mapsto> bob_conn],
      Users = [''alice'' \<mapsto> \<lparr>User_Username = ''alice'', User_Online = True,
                               User_CurrentConn = Some alice_conn, User_LastSeen = 10\<rparr>,
               ''bob'' \<mapsto> \<lparr>User_Username = ''bob'', User_Online = True,
                             User_CurrentConn = Some bob_conn, User_LastSeen = 11\<rparr>],
      Conversations = Map.empty,
      chans = (\<lambda>_. empty_chan 2)(2 :=
                \<lparr>Chan_buf = [envelope ''status''
                               (PStatusEvent \<lparr>StatusEvent_Username = ''alice'', StatusEvent_Online = True\<rparr>)],
                 Chan_cap = 1, Chan_closed = False\<rparr>)\<rparr>"

text \<open>
  The typing claim: the envelope of a typing signal, and what it means that the
  signal was delivered to the connection \<open>rc\<close> and to no other queue.
\<close>

definition typing_envelope :: "TypingEventWrapper \<Rightarrow> WSMessage" where
  "typing_envelope ev =
     envelope ''typing''
       (PTypingEvent \<lparr>TypingEvent_From = Wrapper_From ev, TypingEvent_To = [],
                      TypingEvent_IsTyping = Wrapper_IsTyping ev\<rparr>)"

definition typing_delivered :: "Hub \<Rightarrow> TypingEventWrapper \<Rightarrow> Client \<Rightarrow> bool" where
  "typing_delivered h ev rc \<longleftrightarrow>
     (\<exists>h'. handleTypingEvent h ev = Inr h' \<and>
           new_frames h h' (Client_Send rc) = [typing_envelope ev] \<and>
           (\<forall>a. a \<noteq> Client_Send rc \<longrightarrow> new_frames h h' a = []))"

definition typing_to_bob :: TypingEventWrapper where
  "typing_to_bob = \<lparr>Wrapper_From = ''alice'', Wrapper_To = ''bob'', Wrapper_IsTyping = True\<rparr>"

definition typing_to_alice :: TypingEventWrapper where
  "typing_to_alice = \<lparr>Wrapper_From = ''bob'', Wrapper_To = ''alice'', Wrapper_IsTyping = True\<rparr>"

text \<open>
  The unregister claim, as stated, for a connection that is the registered one
  of its identity: it is removed, the presence is offline with the new
  \<^verbatim>\<open>LastSeen\<close>, its queue is closed, and every other registered connection
  gains exactly the offline status envelope.
\<close>

definition status_envelope :: "string \<Rightarrow> bool \<Rightarrow> WSMessage" where
  "status_envelope name online =
     envelope ''status'' (PStatusEvent \<lparr>StatusEvent_Username = name, StatusEvent_Online = online\<rparr>)"

definition unregister_effect :: "Hub \<Rightarrow> string list \<Rightarrow> Time \<Rightarrow> Client \<Rightarrow> bool" where
  "unregister_effect h ks now client \<longleftrightarrow>
     (\<exists>h'. unregisterClient h ks now client = Inr h'
        \<and> Clients h' (Client_Username client) = None
        \<and> (\<exists>usr. Users h' (Client_Username client) = Some usr
               \<and> \<not> User_Online usr \<and> User_LastSeen usr = now)
        \<and> Chan_closed (chans h' (Client_Send client))
        \<and> (\<forall>u c. Clients h u = Some c \<longrightarrow> u \<noteq> Client_Username client \<longrightarrow>
               new_frames h h' (Client_Send c) = [status_envelope (Client_Username client) False]))"

text \<open>The state of \<^verbatim>\<open>unregisterClient\<close> before its \<^verbatim>\<open>select\<close>.\<close>

definition mark_offline :: "Hub \<Rightarrow> Time \<Rightarrow> Client \<Rightarrow> Hub" where
  "mark_offline h now client =
     (let username = Client_Username client;
          h1 = h\<lparr>Clients := (Clients h)(username := None)\<rparr>
      in case Users h1 username of
           None \<Rightarrow> h1
         | Some user \<Rightarrow>
             h1\<lparr>Users := (Users h1)(username \<mapsto>
                   user\<lparr>User_Online := False, User_CurrentConn := None, User_LastSeen := now\<rparr>)\<rparr>)"

text \<open>alice and bob both registered, both queues empty with room for two frames.\<close>

definition hub_both :: Hub where
  "hub_both =
     \<lparr>Clients = [''alice'' \<mapsto> alice_conn, ''bob'' \<mapsto> bob_conn],
      Users = [''alice'' \<mapsto> \<lparr>User_Username = ''alice'', User_Online = True,
                               User_CurrentConn = Some alice_conn, User_LastSeen = 10\<rparr>,
               ''bob'' \<mapsto> \<lparr>User_Username = ''bob'', User_Online = True,
                             User_CurrentConn = Some bob_conn, User_LastSeen = 11\<rparr>],
      Conversations = Map.empty,
      chans = (\<lambda>_. empty_chan 2)\<rparr>"

text \<open>
  Routing a message: the stored message, the envelopes sent, the append to the
  log, and the condition that no queue overflows (one frame for the recipient,
  one for the sender and a second when the recipient is registered; three when
  sender and recipient are the same connection).
\<close>

definition new_message :: "string \<Rightarrow> Time \<Rightarrow> string \<Rightarrow> InboundMessage \<Rightarrow> Message" where
  "new_message newID now from msg =
     \<lparr>Message_ID = newID, Message_From = from, Message_To = InboundMessage_To msg,
      Message_Content = InboundMessage_Content msg, Message_Timestamp = now,
      Message_Status = ''sent''\<rparr>"

definition message_envelope :: "Message \<Rightarrow> string \<Rightarrow> WSMessage" where
  "message_envelope m status =
     envelope ''message''
       (POutboundMessage \<lparr>OutboundMessage_ID = Message_ID m, OutboundMessage_From = Message_From m,
                          OutboundMessage_To = Message_To m, OutboundMessage_Content = Message_Content m,
                          OutboundMessage_Timestamp = Message_Timestamp m,
                          OutboundMessage_Status = status\<rparr>)"

definition ack_envelope :: "Message \<Rightarrow> WSMessage" where
  "ack_envelope m =
     envelope ''ack'' (PAckEvent \<lparr>AckEvent_MessageID = Message_ID m, AckEvent_Status = ''delivered''\<rparr>)"

definition append_log :: "Hub \<Rightarrow> string \<Rightarrow> Message \<Rightarrow> Hub" where
  "append_log h key m = h\<lparr>Conversations := (Conversations h)(key \<mapsto> log_of h key @ [m])\<rparr>"

definition route_room :: "Hub \<Rightarrow> string \<Rightarrow> string \<Rightarrow> bool" where
  "route_room h from to \<longleftrightarrow>
     (case Clients h from of
        None \<Rightarrow> (case Clients h to of None \<Rightarrow> True | Some rc \<Rightarrow> room h rc 1)
      | Some sc \<Rightarrow>
          (case Clients h to of
             None \<Rightarrow> room h sc 1
           | Some rc \<Rightarrow> if Client_Send sc = Client_Send rc then room h sc 3
                        else room h sc 2 \<and> room h rc 1))"

text \<open>A connection the hub may still send to without losing well-formedness.\<close>

definition live :: "Hub \<Rightarrow> Client \<Rightarrow> bool" where
  "live h c \<longleftrightarrow> registered h c \<or> Chan_closed (chans h (Client_Send c))"


definition is_ack :: "WSMessage \<Rightarrow> bool" where
  "is_ack f \<longleftrightarrow> WSMessage_Type f = ''ack''"

text \<open>
  The delivery claim where the recipient is registered: exactly one ack, with
  status delivered, among the frames the sender's queue gains; the stored
  message becomes delivered; the confirmation with status sent comes before
  the ack; the recipient's queue gains one message envelope with status
  delivered.
\<close>

definition delivered_route :: "Hub \<Rightarrow> string \<Rightarrow> Time \<Rightarrow> string \<Rightarrow> InboundMessage \<Rightarrow> bool" where
  "delivered_route h newID now from msg \<longleftrightarrow>
     (let m = new_message newID now from msg; key = ConvKey from (InboundMessage_To msg)
      in \<exists>h' sc rc.
           handleInboundMessageWithSender h newID now from msg = Inr h'
           \<and> Clients h from = Some sc \<and> Clients h (InboundMessage_To msg) = Some rc
           \<and> filter is_ack (new_frames h h' (Client_Send sc)) = [ack_envelope m]
           \<and> log_of h' key = log_of h key @ [m\<lparr>Message_Status := ''delivered''\<rparr>]
           \<and> message_envelope m ''sent''
                 \<in> set (takeWhile (\<lambda>f. \<not> is_ack f) (new_frames h h' (Client_Send sc)))
           \<and> filter (\<lambda>f. f = message_envelope m ''delivered'') (new_frames h h' (Client_Send rc))
                 = [message_envelope m ''delivered''])"

text \<open>
  The delivery claim where the recipient is not registered: no queue gains an
  ack, no queue but the sender's gains a frame, and the message is stored with
  status sent.
\<close>

definition undelivered_route :: "Hub \<Rightarrow> string \<Rightarrow> Time \<Rightarrow> string \<Rightarrow> InboundMessage \<Rightarrow> bool" where
  "undelivered_route h newID now from msg \<longleftrightarrow>
     (let m = new_message newID now from msg; key = ConvKey from (InboundMessage_To msg)
      in \<exists>h'. handleInboundMessageWithSender h newID now from msg = Inr h'
           \<and> (\<forall>a. filter is_ack (new_frames h h' a) = [])
           \<and> (\<forall>a. (\<forall>sc. Clients h from = Some sc \<longrightarrow> a \<noteq> Client_Send sc) \<longrightarrow>
                  new_frames h h' a = [])
           \<and> log_of h' key = log_of h key @ [m])"

text \<open>bob registered, alice known but not connected.\<close>

definition hub_bob_only :: Hub where
  "hub_bob_only =
     \<lparr>Clients = [''bob'' \<mapsto> bob_conn],
      Users = [''alice'' \<mapsto> \<lparr>User_Username = ''alice'', User_Online = False,
                               User_CurrentConn = None, User_LastSeen = 10\<rparr>,
               ''bob'' \<mapsto> \<lparr>User_Username = ''bob'', User_Online = True,
                             User_CurrentConn = Some bob_conn, User_LastSeen = 11\<rparr>],
      Conversations = Map.empty,
      chans = (\<lambda>_. empty_chan 2)\<rparr>"

definition hi_bob :: InboundMessage where
  "hi_bob = \<lparr>InboundMessage_To = ''bob'', InboundMessage_Content = ''hi'', InboundMessage_TempID = []\<rparr>"

definition hi_carol :: InboundMessage where
  "hi_carol = \<lparr>InboundMessage_To = ''carol'', InboundMessage_Content = ''hi'', InboundMessage_TempID = []\<rparr>"

text \<open>The result of a route in which no queue overflows, by who is registered.\<close>

definition routed :: "Hub \<Rightarrow> string \<Rightarrow> Time \<Rightarrow> string \<Rightarrow> InboundMessage \<Rightarrow> Hub" where
  "routed h newID now from msg =
     (let m = new_message newID now from msg;
          key = ConvKey from (InboundMessage_To msg);
          h1 = append_log h key m;
          h2 = (case Clients h from of None \<Rightarrow> h1
                | Some sc \<Rightarrow> enqueue h1 sc (message_envelope m ''sent''))
      in case Clients h (InboundMessage_To msg) of
           None \<Rightarrow> h2
         | Some rc \<Rightarrow>
             (let h4 = mark_delivered (enqueue h2 rc (message_envelope m ''delivered'')) key
              in case Clients h from of None \<Rightarrow> h4
                 | Some sc \<Rightarrow> enqueue h4 sc (ack_envelope m)))"

text \<open>The frames such a route appends to the queue at address \<open>a\<close>.\<close>

definition routed_frames :: "Hub \<Rightarrow> string \<Rightarrow> Time \<Rightarrow> string \<Rightarrow> InboundMessage \<Rightarrow> nat \<Rightarrow> WSMessage list" where
  "routed_frames h newID now from msg a =
     (let m = new_message newID now from msg
      in (case Clients h from of
            None \<Rightarrow> []
          | Some sc \<Rightarrow> if Client_Send sc = a then [message_envelope m ''sent''] else [])
         @ (case Clients h (InboundMessage_To msg) of
              None \<Rightarrow> []
            | Some rc \<Rightarrow>
                (if Client_Send rc = a then [message_envelope m ''delivered''] else [])
                @ (case Clients h from of
                     None \<Rightarrow> []
                   | Some sc \<Rightarrow> if Client_Send sc = a then [ack_envelope m] else [])))"

text \<open>
  The conversation list: the entry the loop appends for a peer, what it means
  that a non-empty log's most recent message touches \<open>username\<close> with that
  peer, and the order of the result.
\<close>

definition conv_entry :: "Hub \<Rightarrow> Message \<Rightarrow> string \<Rightarrow> Conversation" where
  "conv_entry h lastMsg peer =
     \<lparr>PeerUsername = peer, LastMessagePreview = Message_Content lastMsg,
      LastMessageTime = Message_Timestamp lastMsg,
      PeerOnline = (case Users h peer of None \<Rightarrow> False | Some user \<Rightarrow> User_Online user),
      UnreadCount = 0\<rparr>"

definition touching :: "Hub \<Rightarrow> string \<Rightarrow> string \<Rightarrow> Message \<Rightarrow> bool" where
  "touching h username peer lastMsg \<longleftrightarrow>
     (\<exists>k ms. Conversations h k = Some ms \<and> ms \<noteq> [] \<and> lastMsg = last ms
            \<and> peer_of lastMsg username = Some peer)"

definition newest_first :: "Conversation list \<Rightarrow> bool" where
  "newest_first cs \<longleftrightarrow> sorted_wrt (\<lambda>a b. LastMessageTime a \<ge> LastMessageTime b) cs"

text \<open>Three logs; two of them touch alice.\<close>

definition hub_logs :: Hub where
  "hub_logs =
     \<lparr>Clients = Map.empty, Users = Map.empty,
      Conversations =
        [''alice|bob'' \<mapsto> [\<lparr>Message_ID = ''m1'', Message_From = ''alice'', Message_To = ''bob'',
                               Message_Content = ''hi'', Message_Timestamp = 5, Message_Status = ''sent''\<rparr>],
         ''alice|carol'' \<mapsto> [\<lparr>Message_ID = ''m2'', Message_From = ''carol'', Message_To = ''alice'',
                                 Message_Content = ''yo'', Message_Timestamp = 9, Message_Status = ''sent''\<rparr>],
         ''bob|carol'' \<mapsto> [\<lparr>Message_ID = ''m3'', Message_From = ''bob'', Message_To = ''carol'',
                               Message_Content = ''hm'', Message_Timestamp = 7, Message_Status = ''sent''\<rparr>]],
      chans = (\<lambda>_. empty_chan 2)\<rparr>"

text \<open>
  Registration: the users whose presence the second loop of
  \<^verbatim>\<open>registerClient\<close> replays to the new connection, in the order of the range.
\<close>

definition replay_target :: "Hub \<Rightarrow> Client \<Rightarrow> string \<Rightarrow> bool" where
  "replay_target h client u \<longleftrightarrow>
     (case Users h u of None \<Rightarrow> False
      | Some user \<Rightarrow> u \<noteq> Client_Username client \<and> User_Online user)"

definition replay_targets :: "Hub \<Rightarrow> Client \<Rightarrow> string list \<Rightarrow> string list" where
  "replay_targets h client us = filter (replay_target h client) us"

definition enqueue_all :: "Hub \<Rightarrow> Client \<Rightarrow> WSMessage list \<Rightarrow> Hub" where
  "enqueue_all h c fs = foldl (\<lambda>h f. enqueue h c f) h fs"

text \<open>The state after the eviction block, on a well-formed state.\<close>

definition evicted :: "Hub \<Rightarrow> string \<Rightarrow> Hub" where
  "evicted h username = (case Clients h username of None \<Rightarrow> h | Some old \<Rightarrow> disconnect h old)"

text \<open>
  A hub with \<open>n\<close> users, all registered and online, each with an empty queue
  of the capacity \<^verbatim>\<open>HandleWebSocket\<close> gives, and a connection for a new user.
\<close>

definition name_of :: "nat \<Rightarrow> string" where
  "name_of i = replicate (Suc i) CHR ''u''"

definition crowd_names :: "nat \<Rightarrow> string list" where
  "crowd_names n = map name_of [0..<n]"

definition crowd_conn :: "string \<Rightarrow> Client" where
  "crowd_conn k = \<lparr>Client_Username = k, Client_Send = length k\<rparr>"

definition crowd :: "nat \<Rightarrow> Hub" where
  "crowd n =
     \<lparr>Clients = (\<lambda>k. if k \<in> set (crowd_names n) then Some (crowd_conn k) else None),
      Users = (\<lambda>k. if k \<in> set (crowd_names n)
                   then Some \<lparr>User_Username = k, User_Online = True,
                              User_CurrentConn = Some (crowd_conn k), User_LastSeen = 0\<rparr>
                   else None),
      Conversations = Map.empty,
      chans = (\<lambda>_. empty_chan 256)\<rparr>"

definition newcomer :: Client where
  "newcomer = \<lparr>Client_Username = ''new'', Client_Send = 0\<rparr>"

text \<open>
  The histories of the hub. \<^verbatim>\<open>Hub.Run\<close> takes register, unregister and typing
  events from its channels one at a time, and the reader pumps call
  \<^verbatim>\<open>handleInboundMessageWithSender\<close>, which holds the hub's lock while it reads
  the tables and appends to the log and has released it when it sends. A
  history is a sequence of whole calls, each run from its first statement to
  its last with no other call in between; an event carries what the call reads
  from its environment (the orders of the map ranges, the clock, the new
  message id). A history stops at the first panic.
\<close>

datatype Event =
    Register "string list" "string list" Time Client
  | Unregister "string list" Time Client
  | RouteMessage string Time string InboundMessage
  | RouteTyping TypingEventWrapper

fun apply_event :: "Hub \<Rightarrow> Event \<Rightarrow> error + Hub" where
  "apply_event h (Register ks us now client) =
     (case registerClient h ks us now client of Inl e \<Rightarrow> Inl e | Inr (h', ok) \<Rightarrow> Inr h')"
| "apply_event h (Unregister ks now client) = unregisterClient h ks now client"
| "apply_event h (RouteMessage newID now from msg) = handleInboundMessageWithSender h newID now from msg"
| "apply_event h (RouteTyping ev) = handleTypingEvent h ev"

fun run :: "Hub \<Rightarrow> Event list \<Rightarrow> error + Hub" where
  "run h [] = Inr h"
| "run h (e # es) = (case apply_event h e of Inl x \<Rightarrow> Inl x | Inr h' \<Rightarrow> run h' es)"

text \<open>An entry of the user table stays, under the same name.\<close>

definition keeps_users :: "Hub \<Rightarrow> Hub \<Rightarrow> bool" where
  "keeps_users h h' \<longleftrightarrow>
     (\<forall>u usr. Users h u = Some usr \<longrightarrow>
        (\<exists>usr'. Users h' u = Some usr' \<and> User_Username usr' = User_Username usr))"

section \<open>Sending to a queue\<close>

lemma enqueue_simps:
  "Clients (enqueue h c f) = Clients h"
  "Users (enqueue h c f) = Users h"
  "Conversations (enqueue h c f) = Conversations h"
  "Chan_closed (chans (enqueue h c f) a) = Chan_closed (chans h a)"
  "Chan_cap (chans (enqueue h c f) a) = Chan_cap (chans h a)"
  "Chan_buf (chans (enqueue h c f) a) =
     (if a = Client_Send c then Chan_buf (chans h a) @ [f] else Chan_buf (chans h a))"
  by (simp_all add: enqueue_def)

lemma disconnect_simps:
  "Clients (disconnect h c) = (Clients h)(Client_Username c := None)"
  "Users (disconnect h c) = Users h"
  "Conversations (disconnect h c) = Conversations h"
  "Chan_closed (chans (disconnect h c) a) = (a = Client_Send c \<or> Chan_closed (chans h a))"
  "Chan_cap (chans (disconnect h c) a) = Chan_cap (chans h a)"
  "Chan_buf (chans (disconnect h c) a) = Chan_buf (chans h a)"
  by (simp_all add: disconnect_def)

lemma enqueue_other: "a \<noteq> Client_Send c \<Longrightarrow> chans (enqueue h c f) a = chans h a"
  by (simp add: enqueue_def)

lemma disconnect_other: "a \<noteq> Client_Send c \<Longrightarrow> chans (disconnect h c) a = chans h a"
  by (simp add: disconnect_def)

lemma sendToClient_cases:
  "sendToClient h c t p =
     (if Chan_closed (chans h (Client_Send c)) then Inl SendOnClosedChannel
      else Inr (deliver h c (envelope t p)))"
  by (auto simp: sendToClient_def deliver_def full_def disconnect_def enqueue_def envelope_def Let_def)

lemma deliver_simps:
  "Users (deliver h c f) = Users h"
  "Conversations (deliver h c f) = Conversations h"
  "Chan_cap (chans (deliver h c f) a) = Chan_cap (chans h a)"
  by (simp_all add: deliver_def enqueue_simps disconnect_simps)

lemma deliver_other: "a \<noteq> Client_Send c \<Longrightarrow> chans (deliver h c f) a = chans h a"
  by (simp add: deliver_def enqueue_other disconnect_other)

lemma deliver_closed_mono:
  "Chan_closed (chans h a) \<Longrightarrow> Chan_closed (chans (deliver h c f) a)"
  by (simp add: deliver_def enqueue_simps disconnect_simps)

lemma deliver_Clients_sub:
  "Clients (deliver h c f) u = Some x \<Longrightarrow> Clients h u = Some x"
  by (auto simp: deliver_def enqueue_simps disconnect_simps split: if_splits)

lemma deliver_Clients_other:
  "u \<noteq> Client_Username c \<Longrightarrow> Clients (deliver h c f) u = Clients h u"
  by (simp add: deliver_def enqueue_simps disconnect_simps)

lemma hub_inv_enqueue: "hub_inv h \<Longrightarrow> hub_inv (enqueue h c f)"
  by (simp add: hub_inv_def clients_wf_def clients_inj_def presence_wf_def users_wf_def enqueue_simps)

lemma hub_inv_disconnect:
  assumes "hub_inv h" and "registered h c"
  shows "hub_inv (disconnect h c)"
proof -
  from assms have wf: "clients_wf h" and inj: "clients_inj h" and pr: "presence_wf h" and us: "users_wf h"
    by (simp_all add: hub_inv_def)
  have other: "Client_Send ca \<noteq> Client_Send c"
    if "Clients h u = Some ca" and "u \<noteq> Client_Username c" for u ca
    using inj that assms(2) unfolding clients_inj_def registered_def by blast
  have "clients_wf (disconnect h c)"
    using wf other unfolding clients_wf_def by (auto simp: disconnect_simps split: if_splits)
  moreover have "clients_inj (disconnect h c)"
    using inj unfolding clients_inj_def by (auto simp: disconnect_simps split: if_splits)
  moreover have "presence_wf (disconnect h c)"
    using pr unfolding presence_wf_def by (auto simp: disconnect_simps split: if_splits)
  moreover have "users_wf (disconnect h c)"
    using us unfolding users_wf_def by (simp add: disconnect_simps)
  ultimately show ?thesis by (simp add: hub_inv_def)
qed

lemma hub_inv_deliver: "hub_inv h \<Longrightarrow> registered h c \<Longrightarrow> hub_inv (deliver h c f)"
  by (simp add: deliver_def hub_inv_enqueue hub_inv_disconnect)

lemma registered_open: "hub_inv h \<Longrightarrow> Clients h u = Some c \<Longrightarrow> \<not> Chan_closed (chans h (Client_Send c))"
  by (auto simp: hub_inv_def clients_wf_def)

lemma registered_name: "hub_inv h \<Longrightarrow> Clients h u = Some c \<Longrightarrow> Client_Username c = u"
  by (auto simp: hub_inv_def clients_wf_def)

lemma registered_lookup: "hub_inv h \<Longrightarrow> Clients h u = Some c \<Longrightarrow> registered h c"
  by (auto simp: hub_inv_def clients_wf_def registered_def)

lemma registered_distinct_chan:
  "hub_inv h \<Longrightarrow> Clients h u = Some c \<Longrightarrow> Clients h u' = Some c' \<Longrightarrow> u \<noteq> u'
     \<Longrightarrow> Client_Send c \<noteq> Client_Send c'"
  unfolding hub_inv_def clients_inj_def by blast

lemma sendToClient_registered:
  "hub_inv h \<Longrightarrow> Clients h u = Some c \<Longrightarrow> sendToClient h c t p = Inr (deliver h c (envelope t p))"
  by (simp add: sendToClient_cases registered_open)

lemma new_frames_enqueue:
  "new_frames h (enqueue h c f) a = (if a = Client_Send c then [f] else [])"
  by (simp add: new_frames_def enqueue_simps)

lemma new_frames_disconnect: "new_frames h (disconnect h c) a = []"
  by (simp add: new_frames_def disconnect_simps)

lemma new_frames_same: "new_frames h h a = []"
  by (simp add: new_frames_def)

lemma handleTypingEvent_cases:
  "handleTypingEvent h ev =
     (case Clients h (Wrapper_To ev) of
        None \<Rightarrow> Inr h
      | Some rc \<Rightarrow> sendToClient h rc ''typing'' (WSMessage_Payload (typing_envelope ev)))"
  by (simp add: handleTypingEvent_def typing_envelope_def envelope_def split: option.splits)

lemma envelope_typing: "envelope ''typing'' (WSMessage_Payload (typing_envelope ev)) = typing_envelope ev"
  by (simp add: typing_envelope_def envelope_def)

section \<open>The scenario states are well-formed\<close>

lemma hub_inv_hub_alice_online: "hub_inv hub_alice_online"
  by (auto simp: hub_inv_def clients_wf_def clients_inj_def presence_wf_def users_wf_def
      hub_alice_online_def alice_conn_def empty_chan_def split: if_splits)

lemma hub_inv_hub_bob_full: "hub_inv hub_bob_full"
  by (auto simp: hub_inv_def clients_wf_def clients_inj_def presence_wf_def users_wf_def
      hub_bob_full_def alice_conn_def bob_conn_def empty_chan_def split: if_splits)

lemma bob_full: "registered hub_bob_full bob_conn \<and> full hub_bob_full bob_conn"
  by (simp add: registered_def full_def hub_bob_full_def bob_conn_def)

lemma hub_inv_hub_both: "hub_inv hub_both"
  by (auto simp: hub_inv_def clients_wf_def clients_inj_def presence_wf_def users_wf_def
      hub_both_def alice_conn_def bob_conn_def empty_chan_def split: if_splits)

lemma hub_inv_hub_bob_only: "hub_inv hub_bob_only"
  by (auto simp: hub_inv_def clients_wf_def clients_inj_def presence_wf_def users_wf_def
      hub_bob_only_def bob_conn_def empty_chan_def split: if_splits)

section \<open>The status broadcast\<close>

lemma sendToClient_Inr: "sendToClient h c t p = Inr h' \<Longrightarrow> h' = deliver h c (envelope t p)"
  by (simp add: sendToClient_cases split: if_splits)

lemma broadcast_frame:
  "broadcastStatus_loop name ev ks h = Inr h' \<Longrightarrow>
     Users h' = Users h \<and> Conversations h' = Conversations h
     \<and> (\<forall>u x. Clients h' u = Some x \<longrightarrow> Clients h u = Some x)
     \<and> (\<forall>a. Chan_closed (chans h a) \<longrightarrow> Chan_closed (chans h' a))"
proof (induction ks arbitrary: h)
  case Nil
  then show ?case by simp
next
  case (Cons k ks)
  show ?case
  proof (cases "Clients h k")
    case None
    with Cons show ?thesis by simp
  next
    case (Some c)
    show ?thesis
    proof (cases "k = name")
      case True
      with Some Cons show ?thesis by simp
    next
      case False
      with Some Cons.prems obtain h1 where h1: "sendToClient h c ''status'' ev = Inr h1"
        and rest: "broadcastStatus_loop name ev ks h1 = Inr h'"
        by (auto split: sum.splits)
      from sendToClient_Inr [OF h1] have eq: "h1 = deliver h c (envelope ''status'' ev)" .
      from Cons.IH [OF rest] show ?thesis
        unfolding eq by (auto simp: deliver_simps dest: deliver_Clients_sub intro: deliver_closed_mono)
    qed
  qed
qed

lemma broadcast_step:
  assumes "hub_inv h"
  shows "broadcastStatus_loop name ev (k # ks) h =
     (case Clients h k of
        None \<Rightarrow> broadcastStatus_loop name ev ks h
      | Some c \<Rightarrow> if k \<noteq> name then broadcastStatus_loop name ev ks (deliver h c (envelope ''status'' ev))
                  else broadcastStatus_loop name ev ks h)"
  by (auto simp: sendToClient_registered [OF assms] split: option.splits)

lemma broadcast_returns:
  "hub_inv h \<Longrightarrow> \<exists>h'. broadcastStatus_loop name ev ks h = Inr h' \<and> hub_inv h'"
proof (induction ks arbitrary: h)
  case Nil
  then show ?case by simp
next
  case (Cons k ks)
  show ?case
  proof (cases "Clients h k")
    case None
    with Cons show ?thesis by (simp add: broadcast_step del: broadcastStatus_loop.simps)
  next
    case (Some c)
    from Cons.prems Some have "hub_inv (deliver h c (envelope ''status'' ev))"
      by (intro hub_inv_deliver registered_lookup)
    with Cons Some show ?thesis by (simp add: broadcast_step del: broadcastStatus_loop.simps)
  qed
qed

lemma broadcast_keeps_client:
  "hub_inv h \<Longrightarrow> broadcastStatus_loop name ev ks h = Inr h' \<Longrightarrow> u \<notin> set ks \<or> u = name
     \<Longrightarrow> Clients h' u = Clients h u"
proof (induction ks arbitrary: h)
  case Nil
  then show ?case by simp
next
  case (Cons k ks)
  show ?case
  proof (cases "Clients h k")
    case None
    with Cons show ?thesis by (simp add: broadcast_step del: broadcastStatus_loop.simps) blast
  next
    case (Some c)
    show ?thesis
    proof (cases "k = name")
      case True
      with Cons Some show ?thesis by (simp add: broadcast_step del: broadcastStatus_loop.simps) blast
    next
      case False
      let ?h1 = "deliver h c (envelope ''status'' ev)"
      from Cons.prems Some have inv1: "hub_inv ?h1"
        by (intro hub_inv_deliver registered_lookup)
      from Cons.prems(2) Some False Cons.prems(1)
      have rest: "broadcastStatus_loop name ev ks ?h1 = Inr h'" by (simp add: broadcast_step del: broadcastStatus_loop.simps)
      from Cons.prems(3) False have "u \<notin> set ks \<or> u = name" and "u \<noteq> k" by auto
      with Cons.IH [OF inv1 rest] have "Clients h' u = Clients ?h1 u" by simp
      moreover from registered_name [OF Cons.prems(1) Some] \<open>u \<noteq> k\<close>
      have "Clients ?h1 u = Clients h u" by (simp add: deliver_Clients_other)
      ultimately show ?thesis by simp
    qed
  qed
qed

lemma broadcast_keeps_chan:
  "hub_inv h \<Longrightarrow> broadcastStatus_loop name ev ks h = Inr h'
     \<Longrightarrow> (\<forall>u c. Clients h u = Some c \<longrightarrow> u \<in> set ks \<longrightarrow> u \<noteq> name \<longrightarrow> Client_Send c \<noteq> a)
     \<Longrightarrow> chans h' a = chans h a"
proof (induction ks arbitrary: h)
  case Nil
  then show ?case by simp
next
  case (Cons k ks)
  show ?case
  proof (cases "Clients h k")
    case None
    with Cons show ?thesis by (simp add: broadcast_step del: broadcastStatus_loop.simps)
  next
    case (Some c)
    show ?thesis
    proof (cases "k = name")
      case True
      with Cons Some show ?thesis by (simp add: broadcast_step del: broadcastStatus_loop.simps)
    next
      case False
      let ?h1 = "deliver h c (envelope ''status'' ev)"
      from Cons.prems Some have inv1: "hub_inv ?h1"
        by (intro hub_inv_deliver registered_lookup)
      from Cons.prems(2) Some False Cons.prems(1)
      have rest: "broadcastStatus_loop name ev ks ?h1 = Inr h'" by (simp add: broadcast_step del: broadcastStatus_loop.simps)
      have "\<forall>u c. Clients ?h1 u = Some c \<longrightarrow> u \<in> set ks \<longrightarrow> u \<noteq> name \<longrightarrow> Client_Send c \<noteq> a"
        using Cons.prems(3) by (auto dest: deliver_Clients_sub)
      with Cons.IH [OF inv1 rest] have "chans h' a = chans ?h1 a" by simp
      moreover from Cons.prems(3) Some False have "Client_Send c \<noteq> a" by auto
      then have "chans ?h1 a = chans h a" by (simp add: deliver_other)
      ultimately show ?thesis by simp
    qed
  qed
qed

lemma broadcast_effect:
  "hub_inv h \<Longrightarrow> distinct ks \<Longrightarrow> broadcastStatus_loop name ev ks h = Inr h'
     \<Longrightarrow> u \<in> set ks \<Longrightarrow> u \<noteq> name \<Longrightarrow> Clients h u = Some c
     \<Longrightarrow> chans h' (Client_Send c) = chans (deliver h c (envelope ''status'' ev)) (Client_Send c)
         \<and> Clients h' u = Clients (deliver h c (envelope ''status'' ev)) u"
proof (induction ks arbitrary: h)
  case Nil
  then show ?case by simp
next
  case (Cons k ks)
  let ?f = "envelope ''status'' ev"
  show ?case
  proof (cases "k = u")
    case True
    let ?h1 = "deliver h c ?f"
    from Cons.prems have inv1: "hub_inv ?h1"
      by (intro hub_inv_deliver registered_lookup)
    from Cons.prems True have rest: "broadcastStatus_loop name ev ks ?h1 = Inr h'"
      by (simp add: broadcast_step del: broadcastStatus_loop.simps)
    from Cons.prems(2) True have notin: "u \<notin> set ks" by simp
    have cl: "Clients h' u = Clients ?h1 u"
      using broadcast_keeps_client [OF inv1 rest] notin by simp
    have "\<forall>u' c'. Clients ?h1 u' = Some c' \<longrightarrow> u' \<in> set ks \<longrightarrow> u' \<noteq> name \<longrightarrow>
            Client_Send c' \<noteq> Client_Send c"
    proof (intro allI impI)
      fix u' c' assume a: "Clients ?h1 u' = Some c'" "u' \<in> set ks"
      then have "Clients h u' = Some c'" by (auto dest: deliver_Clients_sub)
      moreover from a notin have "u' \<noteq> u" by auto
      ultimately show "Client_Send c' \<noteq> Client_Send c"
        using registered_distinct_chan [OF Cons.prems(1) _ Cons.prems(6)] by blast
    qed
    with broadcast_keeps_chan [OF inv1 rest] have "chans h' (Client_Send c) = chans ?h1 (Client_Send c)"
      by simp
    with cl show ?thesis by simp
  next
    case False
    with Cons.prems have uin: "u \<in> set ks" and dks: "distinct ks" by auto
    show ?thesis
    proof (cases "Clients h k")
      case None
      with Cons.prems have "broadcastStatus_loop name ev ks h = Inr h'" by (simp add: broadcast_step del: broadcastStatus_loop.simps)
      from Cons.IH [OF Cons.prems(1) dks this uin Cons.prems(5,6)] show ?thesis .
    next
      case (Some ck)
      show ?thesis
      proof (cases "k = name")
        case True
        with Some Cons.prems have "broadcastStatus_loop name ev ks h = Inr h'"
          by (simp add: broadcast_step del: broadcastStatus_loop.simps)
        from Cons.IH [OF Cons.prems(1) dks this uin Cons.prems(5,6)] show ?thesis .
      next
        case kn: False
        let ?h1 = "deliver h ck ?f"
        from Cons.prems Some have inv1: "hub_inv ?h1"
          by (intro hub_inv_deliver registered_lookup)
        from Cons.prems Some kn have rest: "broadcastStatus_loop name ev ks ?h1 = Inr h'"
          by (simp add: broadcast_step del: broadcastStatus_loop.simps)
        from registered_name [OF Cons.prems(1) Some] False
        have c1: "Clients ?h1 u = Some c" using Cons.prems(6) by (simp add: deliver_Clients_other)
        from registered_distinct_chan [OF Cons.prems(1) Some Cons.prems(6)] False
        have ne: "Client_Send c \<noteq> Client_Send ck" by auto
        then have ch1: "chans ?h1 (Client_Send c) = chans h (Client_Send c)"
          by (simp add: deliver_other)
        from Cons.IH [OF inv1 dks rest uin Cons.prems(5) c1]
        have "chans h' (Client_Send c) = chans (deliver ?h1 c ?f) (Client_Send c)"
          and "Clients h' u = Clients (deliver ?h1 c ?f) u" by simp_all
        moreover have "chans (deliver ?h1 c ?f) (Client_Send c) = chans (deliver h c ?f) (Client_Send c)"
          using ch1 by (simp add: deliver_def full_def enqueue_def disconnect_def)
        moreover have "Clients (deliver ?h1 c ?f) u = Clients (deliver h c ?f) u"
          using ch1 c1 Cons.prems(6) by (simp add: deliver_def full_def enqueue_simps disconnect_simps)
        ultimately show ?thesis by simp
      qed
    qed
  qed
qed

section \<open>Unregistering\<close>

lemma unregisterClient_unfold:
  "unregisterClient h ks now client =
     (if Clients h (Client_Username client) = Some client
      then (case unregisterClient_select (mark_offline h now client) (Client_Send client) of
              Inl e \<Rightarrow> Inl e
            | Inr h3 \<Rightarrow> broadcastStatus h3 ks (Client_Username client) False)
      else Inr h)"
  by (auto simp: unregisterClient_def mark_offline_def Let_def split: option.splits)

lemma mark_offline_simps:
  "Clients (mark_offline h now client) = (Clients h)(Client_Username client := None)"
  "Conversations (mark_offline h now client) = Conversations h"
  "chans (mark_offline h now client) = chans h"
  "Users (mark_offline h now client) =
     (case Users h (Client_Username client) of
        None \<Rightarrow> Users h
      | Some user \<Rightarrow> (Users h)(Client_Username client \<mapsto>
           user\<lparr>User_Online := False, User_CurrentConn := None, User_LastSeen := now\<rparr>))"
  by (simp_all add: mark_offline_def Let_def split: option.splits)

lemma hub_inv_mark_offline:
  assumes "hub_inv h"
  shows "hub_inv (mark_offline h now client)"
proof -
  from assms have wf: "clients_wf h" and inj: "clients_inj h" and pr: "presence_wf h" and us: "users_wf h"
    by (simp_all add: hub_inv_def)
  have "clients_wf (mark_offline h now client)"
    using wf unfolding clients_wf_def by (auto simp: mark_offline_simps split: if_splits)
  moreover have "clients_inj (mark_offline h now client)"
    using inj unfolding clients_inj_def by (auto simp: mark_offline_simps split: if_splits)
  moreover have "presence_wf (mark_offline h now client)"
    using pr unfolding presence_wf_def by (auto simp: mark_offline_simps split: if_splits option.splits)
  moreover have "users_wf (mark_offline h now client)"
    using us unfolding users_wf_def by (auto simp: mark_offline_simps split: if_splits option.splits)
  ultimately show ?thesis by (simp add: hub_inv_def)
qed

text \<open>The select on an open channel: a pending frame is taken, an empty queue is closed.\<close>

lemma select_open:
  "\<not> Chan_closed (chans h a) \<Longrightarrow>
     unregisterClient_select h a =
       Inr (h\<lparr>chans := (chans h)(a := if Chan_buf (chans h a) \<noteq> []
                                     then (chans h a)\<lparr>Chan_buf := tl (Chan_buf (chans h a))\<rparr>
                                     else (chans h a)\<lparr>Chan_closed := True\<rparr>)\<rparr>)"
  by (simp add: unregisterClient_select_def close_chan_def Let_def)

lemma select_frame:
  "unregisterClient_select h a = Inr h' \<Longrightarrow>
     Clients h' = Clients h \<and> Users h' = Users h \<and> Conversations h' = Conversations h
     \<and> (\<forall>b. b \<noteq> a \<longrightarrow> chans h' b = chans h b)
     \<and> (Chan_buf (chans h a) = [] \<longrightarrow> Chan_closed (chans h' a))"
  by (auto simp: unregisterClient_select_def close_chan_def Let_def split: if_splits)

lemma hub_inv_select:
  assumes "hub_inv h" and "\<forall>u c. Clients h u = Some c \<longrightarrow> Client_Send c \<noteq> a"
    and "unregisterClient_select h a = Inr h'"
  shows "hub_inv h'"
proof -
  from select_frame [OF assms(3)] have fr: "Clients h' = Clients h" "Users h' = Users h"
    "\<forall>b. b \<noteq> a \<longrightarrow> chans h' b = chans h b" by simp_all
  from assms(1) have wf: "clients_wf h" and inj: "clients_inj h" and pr: "presence_wf h" and us: "users_wf h"
    by (simp_all add: hub_inv_def)
  have "clients_wf h'" using wf assms(2) fr unfolding clients_wf_def by auto
  moreover have "clients_inj h'" using inj fr unfolding clients_inj_def by auto
  moreover have "presence_wf h'" using pr fr unfolding presence_wf_def by auto
  moreover have "users_wf h'" using us fr unfolding users_wf_def by auto
  ultimately show ?thesis by (simp add: hub_inv_def)
qed


lemma unregisterClient_stale:
  "\<not> registered h client \<Longrightarrow> unregisterClient h ks now client = Inr h"
  by (simp add: unregisterClient_unfold registered_def)

lemma unregisterClient_registered:
  assumes inv: "hub_inv h" and reg: "registered h client"
    and ro: "range_order ((Clients h)(Client_Username client := None)) ks"
  shows "\<exists>h' usr. unregisterClient h ks now client = Inr h'
     \<and> Clients h' (Client_Username client) = None
     \<and> Users h (Client_Username client) = Some usr
     \<and> Users h' = (Users h)(Client_Username client \<mapsto>
           usr\<lparr>User_Online := False, User_CurrentConn := None, User_LastSeen := now\<rparr>)
     \<and> (Chan_buf (chans h (Client_Send client)) = [] \<longrightarrow> Chan_closed (chans h' (Client_Send client)))
     \<and> (\<forall>u c. Clients h u = Some c \<longrightarrow> u \<noteq> Client_Username client \<longrightarrow>
           (if full h c
            then Clients h' u = None \<and> Chan_closed (chans h' (Client_Send c))
                 \<and> new_frames h h' (Client_Send c) = []
            else Clients h' u = Some c
                 \<and> new_frames h h' (Client_Send c) = [status_envelope (Client_Username client) False]))
     \<and> Conversations h' = Conversations h \<and> hub_inv h'"
proof -
  let ?name = "Client_Username client"
  let ?a = "Client_Send client"
  let ?h2 = "mark_offline h now client"
  let ?ev = "PStatusEvent \<lparr>StatusEvent_Username = ?name, StatusEvent_Online = False\<rparr>"
  let ?f = "envelope ''status'' ?ev"
  from reg have regc: "Clients h ?name = Some client" by (simp add: registered_def)
  from inv regc obtain usr where usr: "Users h ?name = Some usr"
    unfolding hub_inv_def presence_wf_def by blast
  have inv2: "hub_inv ?h2" using inv by (rule hub_inv_mark_offline)
  have other_chan: "Client_Send c \<noteq> ?a" if "Clients h u = Some c" "u \<noteq> ?name" for u c
    using registered_distinct_chan [OF inv that(1) regc that(2)] .
  have free2: "\<forall>u c. Clients ?h2 u = Some c \<longrightarrow> Client_Send c \<noteq> ?a"
    using other_chan by (auto simp: mark_offline_simps split: if_splits)
  have open2: "\<not> Chan_closed (chans ?h2 ?a)"
    using registered_open [OF inv regc] by (simp add: mark_offline_simps)
  from select_open [OF open2] obtain h3 where sel: "unregisterClient_select ?h2 ?a = Inr h3" by blast
  from select_frame [OF sel] have fr3: "Clients h3 = Clients ?h2" "Users h3 = Users ?h2"
    "Conversations h3 = Conversations ?h2" "\<forall>b. b \<noteq> ?a \<longrightarrow> chans h3 b = chans ?h2 b"
    "Chan_buf (chans ?h2 ?a) = [] \<longrightarrow> Chan_closed (chans h3 ?a)"
    by simp_all
  have inv3: "hub_inv h3" using inv2 free2 sel by (rule hub_inv_select)
  from broadcast_returns [OF inv3, of ?name ?ev ks] obtain h'
    where run: "broadcastStatus_loop ?name ?ev ks h3 = Inr h'" and inv': "hub_inv h'" by blast
  have res: "unregisterClient h ks now client = Inr h'"
    using regc sel run by (simp add: unregisterClient_unfold broadcastStatus_def)
  from broadcast_frame [OF run] have fr: "Users h' = Users h3" "Conversations h' = Conversations h3"
    "\<forall>a. Chan_closed (chans h3 a) \<longrightarrow> Chan_closed (chans h' a)" by simp_all
  have gone: "Clients h' ?name = None"
    using broadcast_keeps_client [OF inv3 run, of ?name] fr3(1) by (simp add: mark_offline_simps)
  have users: "Users h' = (Users h)(?name \<mapsto>
           usr\<lparr>User_Online := False, User_CurrentConn := None, User_LastSeen := now\<rparr>)"
    using fr(1) fr3(2) usr by (simp add: mark_offline_simps)
  have closed: "Chan_buf (chans h ?a) = [] \<longrightarrow> Chan_closed (chans h' ?a)"
    using fr3(5) fr(3) by (simp add: mark_offline_simps)
  have others: "\<forall>u c. Clients h u = Some c \<longrightarrow> u \<noteq> ?name \<longrightarrow>
           (if full h c
            then Clients h' u = None \<and> Chan_closed (chans h' (Client_Send c))
                 \<and> new_frames h h' (Client_Send c) = []
            else Clients h' u = Some c
                 \<and> new_frames h h' (Client_Send c) = [status_envelope ?name False])"
  proof (intro allI impI)
    fix u c assume c: "Clients h u = Some c" and u: "u \<noteq> ?name"
    from c u have c3: "Clients h3 u = Some c" by (simp add: fr3(1) mark_offline_simps)
    from ro c u have uin: "u \<in> set ks" and dks: "distinct ks" by (auto simp: range_order_def)
    from other_chan [OF c u] have ch3: "chans h3 (Client_Send c) = chans h (Client_Send c)"
      using fr3(4) by (simp add: mark_offline_simps)
    from registered_name [OF inv c] have nm: "Client_Username c = u" .
    from broadcast_effect [OF inv3 dks run uin u c3]
    have eff: "chans h' (Client_Send c) = chans (deliver h3 c ?f) (Client_Send c)"
      "Clients h' u = Clients (deliver h3 c ?f) u" by simp_all
    from ch3 have fl: "full h3 c = full h c" by (simp add: full_def)
    show "if full h c
            then Clients h' u = None \<and> Chan_closed (chans h' (Client_Send c))
                 \<and> new_frames h h' (Client_Send c) = []
            else Clients h' u = Some c
                 \<and> new_frames h h' (Client_Send c) = [status_envelope ?name False]"
    proof (cases "full h c")
      case True
      with eff fl nm ch3 show ?thesis
        by (simp add: deliver_def disconnect_simps new_frames_def)
    next
      case False
      with eff fl nm ch3 c3 show ?thesis
        by (simp add: deliver_def enqueue_simps new_frames_def status_envelope_def)
    qed
  qed
  from res gone usr users closed others fr(2) fr3(3) inv' show ?thesis
    by (intro exI [of _ h'] exI [of _ usr]) (simp add: mark_offline_simps)
qed

section \<open>Routing a message\<close>

lemma handleInbound_unfold:
  "handleInboundMessageWithSender h newID now from msg =
     (let m = new_message newID now from msg;
          key = ConvKey from (InboundMessage_To msg);
          h1 = append_log h key m
      in case (case Clients h from of
                 None \<Rightarrow> Inr h1
               | Some sc \<Rightarrow> sendToClient h1 sc ''message'' (WSMessage_Payload (message_envelope m ''sent''))) of
           Inl e \<Rightarrow> Inl e
         | Inr h2 \<Rightarrow>
             (case Clients h (InboundMessage_To msg) of
                None \<Rightarrow> Inr h2
              | Some rc \<Rightarrow>
                  (case sendToClient h2 rc ''message'' (WSMessage_Payload (message_envelope m ''delivered'')) of
                     Inl e \<Rightarrow> Inl e
                   | Inr h3 \<Rightarrow>
                       (case Clients h from of
                          None \<Rightarrow> Inr (mark_delivered h3 key)
                        | Some sc \<Rightarrow> sendToClient (mark_delivered h3 key) sc ''ack''
                                      (WSMessage_Payload (ack_envelope m))))))"
  unfolding handleInboundMessageWithSender_def Let_def
  by (simp add: new_message_def message_envelope_def ack_envelope_def append_log_def envelope_def
      split: option.splits sum.splits)

lemma envelope_payload:
  "envelope ''message'' (WSMessage_Payload (message_envelope m s)) = message_envelope m s"
  "envelope ''ack'' (WSMessage_Payload (ack_envelope m)) = ack_envelope m"
  by (simp_all add: message_envelope_def ack_envelope_def envelope_def)

lemma append_log_simps:
  "Clients (append_log h key m) = Clients h"
  "Users (append_log h key m) = Users h"
  "chans (append_log h key m) = chans h"
  "Conversations (append_log h key m) = (Conversations h)(key \<mapsto> log_of h key @ [m])"
  by (simp_all add: append_log_def)

lemma mark_delivered_simps:
  "Clients (mark_delivered h key) = Clients h"
  "Users (mark_delivered h key) = Users h"
  "chans (mark_delivered h key) = chans h"
  by (simp_all add: mark_delivered_def Let_def)

lemma log_of_enqueue: "log_of (enqueue h c f) k = log_of h k"
  by (simp add: log_of_def enqueue_simps)

lemma log_of_deliver: "log_of (deliver h c f) k = log_of h k"
  by (simp add: log_of_def deliver_simps)

lemma mark_delivered_last:
  "log_of h key = ms @ [m] \<Longrightarrow> Conversations h key = Some (ms @ [m]) \<Longrightarrow>
     Conversations (mark_delivered h key) =
       (Conversations h)(key \<mapsto> ms @ [m\<lparr>Message_Status := ''delivered''\<rparr>])"
  by (simp add: mark_delivered_def Let_def)

lemma hub_inv_log:
  "hub_inv (append_log h key m) = hub_inv h"
  "hub_inv (mark_delivered h key) = hub_inv h"
  by (simp_all add: hub_inv_def clients_wf_def clients_inj_def presence_wf_def users_wf_def
      append_log_simps mark_delivered_simps)

lemma live_log:
  "live (append_log h key m) c = live h c"
  "live (mark_delivered h key) c = live h c"
  by (simp_all add: live_def registered_def append_log_simps mark_delivered_simps)

lemma live_deliver:
  assumes "hub_inv h" and "registered h c" and "live h c'"
  shows "live (deliver h c f) c'"
proof (cases "Chan_closed (chans h (Client_Send c'))")
  case True
  then show ?thesis by (simp add: live_def deliver_closed_mono)
next
  case False
  with assms(3) have r: "registered h c'" by (simp add: live_def)
  show ?thesis
  proof (cases "Client_Username c' = Client_Username c")
    case True
    with r assms(2) have "c' = c" by (simp add: registered_def)
    then show ?thesis using assms(2)
      by (auto simp: live_def registered_def deliver_def enqueue_simps disconnect_simps)
  next
    case False
    with r show ?thesis by (simp add: live_def registered_def deliver_Clients_other)
  qed
qed

lemma send_live:
  assumes "hub_inv h" and "live h c" and "sendToClient h c t p = Inr h'"
  shows "hub_inv h' \<and> (\<forall>c'. live h c' \<longrightarrow> live h' c')
         \<and> Users h' = Users h \<and> Conversations h' = Conversations h"
proof -
  from assms(3) have op: "\<not> Chan_closed (chans h (Client_Send c))"
    and eq: "h' = deliver h c (envelope t p)"
    by (simp_all add: sendToClient_cases split: if_splits)
  with assms(2) have reg: "registered h c" by (simp add: live_def)
  show ?thesis unfolding eq
    using hub_inv_deliver [OF assms(1) reg] live_deliver [OF assms(1) reg]
    by (simp add: deliver_simps)
qed

lemma hub_inv_handleInbound:
  assumes inv: "hub_inv h" and run: "handleInboundMessageWithSender h newID now from msg = Inr h'"
  shows "hub_inv h' \<and> Users h' = Users h"
proof -
  let ?m = "new_message newID now from msg"
  let ?key = "ConvKey from (InboundMessage_To msg)"
  let ?h1 = "append_log h ?key ?m"
  have inv1: "hub_inv ?h1" using inv by (simp add: hub_inv_log)
  have live1: "live ?h1 c" if "Clients h u = Some c" for u c
    using registered_lookup [OF inv that] by (simp add: live_log) (simp add: live_def)
  from run obtain h2 where
    s1: "(case Clients h from of None \<Rightarrow> Inr ?h1
          | Some sc \<Rightarrow> sendToClient ?h1 sc ''message'' (WSMessage_Payload (message_envelope ?m ''sent''))) = Inr h2"
    and r2: "(case Clients h (InboundMessage_To msg) of
                None \<Rightarrow> Inr h2
              | Some rc \<Rightarrow>
                  (case sendToClient h2 rc ''message'' (WSMessage_Payload (message_envelope ?m ''delivered'')) of
                     Inl e \<Rightarrow> Inl e
                   | Inr h3 \<Rightarrow>
                       (case Clients h from of
                          None \<Rightarrow> Inr (mark_delivered h3 ?key)
                        | Some sc \<Rightarrow> sendToClient (mark_delivered h3 ?key) sc ''ack''
                                      (WSMessage_Payload (ack_envelope ?m))))) = Inr h'"
    by (auto simp: handleInbound_unfold Let_def split: sum.splits)
  have st2: "hub_inv h2 \<and> (\<forall>c'. live ?h1 c' \<longrightarrow> live h2 c') \<and> Users h2 = Users h"
  proof (cases "Clients h from")
    case None
    with s1 inv1 show ?thesis by (auto simp: append_log_simps)
  next
    case (Some sc)
    with s1 have "sendToClient ?h1 sc ''message'' (WSMessage_Payload (message_envelope ?m ''sent'')) = Inr h2"
      by simp
    from send_live [OF inv1 live1 [OF Some] this] show ?thesis by (simp add: append_log_simps)
  qed
  show ?thesis
  proof (cases "Clients h (InboundMessage_To msg)")
    case None
    with r2 st2 show ?thesis by simp
  next
    case rc: (Some rc)
    with r2 obtain h3 where
      s3: "sendToClient h2 rc ''message'' (WSMessage_Payload (message_envelope ?m ''delivered'')) = Inr h3"
      and r4: "(case Clients h from of
                  None \<Rightarrow> Inr (mark_delivered h3 ?key)
                | Some sc \<Rightarrow> sendToClient (mark_delivered h3 ?key) sc ''ack''
                              (WSMessage_Payload (ack_envelope ?m))) = Inr h'"
      by (auto split: sum.splits)
    from st2 live1 [OF rc] have "live h2 rc" by blast
    from send_live [OF _ this s3] st2
    have st3: "hub_inv h3" "\<forall>c'. live h2 c' \<longrightarrow> live h3 c'" "Users h3 = Users h" by simp_all
    let ?h4 = "mark_delivered h3 ?key"
    have inv4: "hub_inv ?h4" using st3(1) by (simp add: hub_inv_log)
    show ?thesis
    proof (cases "Clients h from")
      case None
      with r4 inv4 st3 show ?thesis by (auto simp: mark_delivered_simps)
    next
      case (Some sc)
      with r4 have s5: "sendToClient ?h4 sc ''ack'' (WSMessage_Payload (ack_envelope ?m)) = Inr h'" by simp
      from st2 st3(2) live1 [OF Some] have "live h3 sc" by blast
      then have "live ?h4 sc" by (simp add: live_log)
      from send_live [OF inv4 this s5] st3(3) show ?thesis by (simp add: mark_delivered_simps)
    qed
  qed
qed

lemma deliver_room: "room h c (Suc n) \<Longrightarrow> deliver h c f = enqueue h c f"
  by (simp add: deliver_def room_def full_def)

lemma room_enqueue:
  "room (enqueue h c f) c' n =
     (if Client_Send c' = Client_Send c then room h c' (Suc n) else room h c' n)"
  by (simp add: room_def enqueue_simps)

lemma room_log:
  "room (append_log h key m) c n = room h c n"
  "room (mark_delivered h key) c n = room h c n"
  by (simp_all add: room_def append_log_simps mark_delivered_simps)

lemma room_less: "room h c (Suc n) \<Longrightarrow> room h c n"
  by (simp add: room_def)

lemma send_room:
  "hub_inv h \<Longrightarrow> \<not> Chan_closed (chans h (Client_Send c)) \<Longrightarrow> room h c (Suc n)
     \<Longrightarrow> sendToClient h c t p = Inr (enqueue h c (envelope t p))"
  by (simp add: sendToClient_cases deliver_room)

lemma open_log:
  "Chan_closed (chans (append_log h key m) a) = Chan_closed (chans h a)"
  "Chan_closed (chans (mark_delivered h key) a) = Chan_closed (chans h a)"
  by (simp_all add: append_log_simps mark_delivered_simps)

lemma handleInbound_room:
  assumes inv: "hub_inv h" and rm: "route_room h from (InboundMessage_To msg)"
  shows "handleInboundMessageWithSender h newID now from msg = Inr (routed h newID now from msg)"
proof -
  let ?m = "new_message newID now from msg"
  let ?key = "ConvKey from (InboundMessage_To msg)"
  let ?h1 = "append_log h ?key ?m"
  have inv1: "hub_inv ?h1" using inv by (simp add: hub_inv_log)
  have op: "\<not> Chan_closed (chans h (Client_Send c))" if "Clients h u = Some c" for u c
    using registered_open [OF inv that] .
  show ?thesis
  proof (cases "Clients h from")
    case sn: None
    show ?thesis
    proof (cases "Clients h (InboundMessage_To msg)")
      case None
      with sn show ?thesis by (simp add: handleInbound_unfold routed_def Let_def)
    next
      case (Some rc)
      with sn rm have r: "room ?h1 rc (Suc 0)" by (simp add: route_room_def room_log)
      have "sendToClient ?h1 rc ''message'' (WSMessage_Payload (message_envelope ?m ''delivered''))
            = Inr (enqueue ?h1 rc (message_envelope ?m ''delivered''))"
        using send_room [OF inv1 _ r] op [OF Some] by (simp add: open_log envelope_payload)
      with sn Some show ?thesis by (simp add: handleInbound_unfold routed_def Let_def)
    qed
  next
    case ss: (Some sc)
    show ?thesis
    proof (cases "Clients h (InboundMessage_To msg)")
      case None
      with ss rm have r: "room ?h1 sc (Suc 0)" by (simp add: route_room_def room_log)
      have "sendToClient ?h1 sc ''message'' (WSMessage_Payload (message_envelope ?m ''sent''))
            = Inr (enqueue ?h1 sc (message_envelope ?m ''sent''))"
        using send_room [OF inv1 _ r] op [OF ss] by (simp add: open_log envelope_payload)
      with ss None show ?thesis by (simp add: handleInbound_unfold routed_def Let_def)
    next
      case (Some rc)
      let ?h2 = "enqueue ?h1 sc (message_envelope ?m ''sent'')"
      let ?h3 = "enqueue ?h2 rc (message_envelope ?m ''delivered'')"
      let ?h4 = "mark_delivered ?h3 ?key"
      from ss Some rm have rs: "room h sc 2"
        by (auto simp: route_room_def numeral_2_eq_2 numeral_3_eq_3 dest: room_less split: if_splits)
      from ss Some rm have rr: "Client_Send sc = Client_Send rc \<longrightarrow> room h rc 3"
        "Client_Send sc \<noteq> Client_Send rc \<longrightarrow> room h rc 1"
        by (auto simp: route_room_def room_def split: if_splits)
      have inv2: "hub_inv ?h2" using inv1 by (rule hub_inv_enqueue)
      have inv3: "hub_inv ?h3" using inv2 by (rule hub_inv_enqueue)
      have inv4: "hub_inv ?h4" using inv3 by (simp add: hub_inv_log)
      have s1: "sendToClient ?h1 sc ''message'' (WSMessage_Payload (message_envelope ?m ''sent'')) = Inr ?h2"
        using send_room [OF inv1, of sc 1] op [OF ss] rs
        by (simp add: open_log envelope_payload room_log numeral_2_eq_2)
      have r2: "room ?h2 rc (Suc 0)"
      proof (cases "Client_Send sc = Client_Send rc")
        case True
        with rr have "room h rc (Suc (Suc 0))" by (simp add: room_def numeral_3_eq_3)
        with True show ?thesis by (simp add: room_log room_enqueue)
      next
        case False
        with rr have "room h rc (Suc 0)" by simp
        with False show ?thesis by (simp add: room_log room_enqueue)
      qed
      have s2: "sendToClient ?h2 rc ''message'' (WSMessage_Payload (message_envelope ?m ''delivered'')) = Inr ?h3"
        using send_room [OF inv2 _ r2] op [OF Some]
        by (simp add: open_log envelope_payload enqueue_simps)
      have r4: "room ?h4 sc (Suc 0)"
      proof (cases "Client_Send sc = Client_Send rc")
        case True
        with rr have "room h sc (Suc (Suc (Suc 0)))" by (simp add: room_def numeral_3_eq_3)
        with True show ?thesis by (simp add: room_log room_enqueue)
      next
        case False
        with rs show ?thesis by (simp add: room_log room_enqueue numeral_2_eq_2)
      qed
      have s3: "sendToClient ?h4 sc ''ack'' (WSMessage_Payload (ack_envelope ?m)) = Inr (enqueue ?h4 sc (ack_envelope ?m))"
        using send_room [OF inv4 _ r4] op [OF ss]
        by (simp add: open_log envelope_payload enqueue_simps)
      from ss Some s1 s2 s3 show ?thesis
        by (simp add: handleInbound_unfold routed_def Let_def)
    qed
  qed
qed

lemma log_of_append: "log_of (append_log h key m) key = log_of h key @ [m]"
  by (simp add: log_of_def append_log_simps)

lemma Conversations_enqueue_append:
  "Conversations (enqueue (append_log h key m) c f) = (Conversations h)(key \<mapsto> log_of h key @ [m])"
  by (simp add: enqueue_simps append_log_simps)

lemma mark_delivered_append:
  assumes "Conversations h1 = (Conversations h)(key \<mapsto> ms @ [m])"
  shows "Conversations (mark_delivered h1 key) =
           (Conversations h)(key \<mapsto> ms @ [m\<lparr>Message_Status := ''delivered''\<rparr>])"
  using assms by (simp add: mark_delivered_def log_of_def Let_def)

lemma routed_tables:
  "Clients (routed h newID now from msg) = Clients h"
  "Users (routed h newID now from msg) = Users h"
  by (simp_all add: routed_def Let_def enqueue_simps append_log_simps mark_delivered_simps
      split: option.splits)

lemma routed_log:
  "Conversations (routed h newID now from msg) =
     (Conversations h)(ConvKey from (InboundMessage_To msg) \<mapsto>
        log_of h (ConvKey from (InboundMessage_To msg)) @
          [(new_message newID now from msg)
             \<lparr>Message_Status := (if Clients h (InboundMessage_To msg) = None then ''sent''
                                  else ''delivered'')\<rparr>])"
proof -
  let ?m = "new_message newID now from msg"
  let ?key = "ConvKey from (InboundMessage_To msg)"
  let ?h1 = "append_log h ?key ?m"
  let ?h2 = "case Clients h from of None \<Rightarrow> ?h1 | Some sc \<Rightarrow> enqueue ?h1 sc (message_envelope ?m ''sent'')"
  have c2: "Conversations ?h2 = (Conversations h)(?key \<mapsto> log_of h ?key @ [?m])"
    by (simp add: enqueue_simps append_log_simps split: option.splits)
  have sent: "?m\<lparr>Message_Status := ''sent''\<rparr> = ?m" by (simp add: new_message_def)
  show ?thesis
  proof (cases "Clients h (InboundMessage_To msg)")
    case None
    with c2 sent show ?thesis by (simp add: routed_def Let_def)
  next
    case (Some rc)
    have "Conversations (enqueue ?h2 rc (message_envelope ?m ''delivered'')) =
            (Conversations h)(?key \<mapsto> log_of h ?key @ [?m])"
      using c2 by (simp add: enqueue_simps)
    from mark_delivered_append [OF this]
    have "Conversations (mark_delivered (enqueue ?h2 rc (message_envelope ?m ''delivered'')) ?key) =
            (Conversations h)(?key \<mapsto> log_of h ?key @ [?m\<lparr>Message_Status := ''delivered''\<rparr>])" .
    with Some show ?thesis
      by (simp add: routed_def Let_def enqueue_simps split: option.splits)
  qed
qed

lemma routed_buf:
  "Chan_buf (chans (routed h newID now from msg) a) =
     Chan_buf (chans h a) @ routed_frames h newID now from msg a"
  by (simp add: routed_def routed_frames_def Let_def enqueue_simps append_log_simps
      mark_delivered_simps split: option.splits)

lemma new_frames_routed:
  "new_frames h (routed h newID now from msg) a = routed_frames h newID now from msg a"
  by (simp add: new_frames_def routed_buf)

lemma envelope_kinds:
  "\<not> is_ack (message_envelope m s)" "is_ack (ack_envelope m)"
  "message_envelope m ''sent'' \<noteq> message_envelope m ''delivered''"
  "ack_envelope m \<noteq> message_envelope m s"
  by (simp_all add: is_ack_def message_envelope_def ack_envelope_def envelope_def)

lemma handleInbound_delivered:
  assumes inv: "hub_inv h" and sc: "Clients h from = Some sc"
    and rc: "Clients h (InboundMessage_To msg) = Some rc"
    and rm: "route_room h from (InboundMessage_To msg)"
  shows "delivered_route h newID now from msg"
proof -
  let ?m = "new_message newID now from msg"
  let ?key = "ConvKey from (InboundMessage_To msg)"
  let ?h' = "routed h newID now from msg"
  have run: "handleInboundMessageWithSender h newID now from msg = Inr ?h'"
    using inv rm by (rule handleInbound_room)
  have fs: "new_frames h ?h' (Client_Send sc) =
        message_envelope ?m ''sent''
          # (if Client_Send rc = Client_Send sc then [message_envelope ?m ''delivered''] else [])
          @ [ack_envelope ?m]"
    using sc rc by (simp add: new_frames_routed routed_frames_def Let_def)
  have fr: "new_frames h ?h' (Client_Send rc) =
        (if Client_Send sc = Client_Send rc then [message_envelope ?m ''sent''] else [])
          @ message_envelope ?m ''delivered''
          # (if Client_Send sc = Client_Send rc then [ack_envelope ?m] else [])"
    using sc rc by (simp add: new_frames_routed routed_frames_def Let_def)
  have acks: "filter is_ack (new_frames h ?h' (Client_Send sc)) = [ack_envelope ?m]"
    by (simp add: fs envelope_kinds)
  have before: "message_envelope ?m ''sent''
        \<in> set (takeWhile (\<lambda>f. \<not> is_ack f) (new_frames h ?h' (Client_Send sc)))"
    by (simp add: fs envelope_kinds)
  have one: "filter (\<lambda>f. f = message_envelope ?m ''delivered'') (new_frames h ?h' (Client_Send rc))
        = [message_envelope ?m ''delivered'']"
    by (simp add: fr envelope_kinds)
  have lg: "log_of ?h' ?key = log_of h ?key @ [?m\<lparr>Message_Status := ''delivered''\<rparr>]"
    using rc by (simp add: log_of_def routed_log)
  from run sc rc acks lg before one show ?thesis
    unfolding delivered_route_def Let_def by blast
qed

lemma handleInbound_undelivered:
  assumes inv: "hub_inv h" and rc: "Clients h (InboundMessage_To msg) = None"
  shows "undelivered_route h newID now from msg"
proof -
  let ?m = "new_message newID now from msg"
  let ?key = "ConvKey from (InboundMessage_To msg)"
  let ?h1 = "append_log h ?key ?m"
  have inv1: "hub_inv ?h1" using inv by (simp add: hub_inv_log)
  show ?thesis
  proof (cases "Clients h from")
    case None
    with rc have run: "handleInboundMessageWithSender h newID now from msg = Inr ?h1"
      by (simp add: handleInbound_unfold Let_def)
    have "\<forall>a. new_frames h ?h1 a = []" by (simp add: new_frames_def append_log_simps)
    with run show ?thesis
      unfolding undelivered_route_def Let_def
      by (intro exI [of _ ?h1]) (simp add: log_of_append)
  next
    case (Some sc)
    let ?h2 = "deliver ?h1 sc (message_envelope ?m ''sent'')"
    have "Clients ?h1 from = Some sc" using Some by (simp add: append_log_simps)
    from sendToClient_registered [OF inv1 this]
    have "sendToClient ?h1 sc ''message'' (WSMessage_Payload (message_envelope ?m ''sent'')) = Inr ?h2"
      by (simp add: envelope_payload)
    with rc Some have run: "handleInboundMessageWithSender h newID now from msg = Inr ?h2"
      by (simp add: handleInbound_unfold Let_def)
    have frames: "new_frames h ?h2 a =
        (if a = Client_Send sc \<and> \<not> full ?h1 sc then [message_envelope ?m ''sent''] else [])" for a
      by (simp add: new_frames_def deliver_def enqueue_simps disconnect_simps append_log_simps)
    have noack: "\<forall>a. filter is_ack (new_frames h ?h2 a) = []"
      by (simp add: frames envelope_kinds)
    have others: "\<forall>a. (\<forall>sc. Clients h from = Some sc \<longrightarrow> a \<noteq> Client_Send sc) \<longrightarrow>
                  new_frames h ?h2 a = []"
      using Some by (simp add: frames)
    have lg: "log_of ?h2 ?key = log_of h ?key @ [?m]"
      by (simp add: log_of_deliver log_of_append)
    from run noack others lg show ?thesis
      unfolding undelivered_route_def Let_def by (intro exI [of _ ?h2]) simp
  qed
qed

section \<open>Registering\<close>

lemma evict_frame:
  "registerClient_evict h name = Inr h' \<Longrightarrow> Users h' = Users h \<and> Conversations h' = Conversations h"
  by (auto simp: registerClient_evict_def close_chan_def split: option.splits if_splits)

lemma evict_inv:
  assumes "hub_inv h"
  shows "registerClient_evict h name = Inr (evicted h name)"
proof (cases "Clients h name")
  case None
  then show ?thesis
    by (simp add: registerClient_evict_def evicted_def split: option.splits)
next
  case (Some old)
  from assms Some obtain usr where usr: "Users h name = Some usr" "User_CurrentConn usr = Some old"
    unfolding hub_inv_def presence_wf_def by blast
  from registered_open [OF assms Some] registered_name [OF assms Some] Some usr
  show ?thesis
    by (simp add: registerClient_evict_def evicted_def close_chan_def disconnect_def)
qed

lemma evicted_simps:
  "Users (evicted h name) = Users h"
  "Conversations (evicted h name) = Conversations h"
  by (simp_all add: evicted_def disconnect_simps split: option.splits)

lemma evicted_inv:
  assumes "hub_inv h"
  shows "hub_inv (evicted h name) \<and> Clients (evicted h name) name = None
     \<and> (\<forall>u c. Clients (evicted h name) u = Some c \<longrightarrow> Clients h u = Some c)
     \<and> (\<forall>u. u \<noteq> name \<longrightarrow> Clients (evicted h name) u = Clients h u)
     \<and> (\<forall>old. Clients h name = Some old \<longrightarrow> Chan_closed (chans (evicted h name) (Client_Send old)))
     \<and> (\<forall>a. (\<forall>old. Clients h name = Some old \<longrightarrow> a \<noteq> Client_Send old) \<longrightarrow>
            chans (evicted h name) a = chans h a)"
proof (cases "Clients h name")
  case None
  with assms show ?thesis by (simp add: evicted_def)
next
  case (Some old)
  from registered_name [OF assms Some] have nm: "Client_Username old = name" .
  with Some have "registered h old" by (simp add: registered_def)
  from hub_inv_disconnect [OF assms this] Some nm show ?thesis
    by (auto simp: evicted_def disconnect_simps disconnect_other)
qed

lemma install_simps:
  "Clients (registerClient_install h now client) = (Clients h)(Client_Username client \<mapsto> client)"
  "Conversations (registerClient_install h now client) = Conversations h"
  "chans (registerClient_install h now client) = chans h"
  "Users (registerClient_install h now client) =
     (Users h)(Client_Username client \<mapsto>
        (case Users h (Client_Username client) of
           Some user \<Rightarrow> user\<lparr>User_Online := True, User_CurrentConn := Some client, User_LastSeen := now\<rparr>
         | None \<Rightarrow> \<lparr>User_Username = Client_Username client, User_Online = True,
                     User_CurrentConn = Some client, User_LastSeen = now\<rparr>))"
  by (simp_all add: registerClient_install_def Let_def split: option.splits)

lemma install_inv:
  assumes "hub_inv h" and "fresh h client"
  shows "hub_inv (registerClient_install h now client)"
proof -
  let ?h = "registerClient_install h now client"
  from assms(1) have wf: "clients_wf h" and inj: "clients_inj h" and pr: "presence_wf h" and us: "users_wf h"
    by (simp_all add: hub_inv_def)
  from assms(2) have op: "\<not> Chan_closed (chans h (Client_Send client))"
    and fr: "\<forall>u c. Clients h u = Some c \<longrightarrow> Client_Send c \<noteq> Client_Send client"
    by (simp_all add: fresh_def)
  have "clients_wf ?h"
    using wf op unfolding clients_wf_def by (auto simp: install_simps split: if_splits)
  moreover have "clients_inj ?h"
    unfolding clients_inj_def
  proof (intro allI impI)
    fix u u' c c'
    assume a: "Clients ?h u = Some c" "Clients ?h u' = Some c'" "Client_Send c = Client_Send c'"
    show "u = u'"
    proof (cases "u = Client_Username client")
      case True
      with a(1) have c: "c = client" by (simp add: install_simps)
      show ?thesis
      proof (rule ccontr)
        assume "u \<noteq> u'"
        with True a(2) have "Clients h u' = Some c'" by (simp add: install_simps)
        with fr c a(3) show False by auto
      qed
    next
      case False
      with a(1) have cu: "Clients h u = Some c" by (simp add: install_simps)
      show ?thesis
      proof (cases "u' = Client_Username client")
        case True
        with a(2) have "c' = client" by (simp add: install_simps)
        with fr cu a(3) show ?thesis by auto
      next
        case u': False
        with a(2) have "Clients h u' = Some c'" by (simp add: install_simps)
        with inj cu a(3) show ?thesis unfolding clients_inj_def by blast
      qed
    qed
  qed
  moreover have "presence_wf ?h"
    using pr unfolding presence_wf_def by (auto simp: install_simps split: if_splits option.splits)
  moreover have "users_wf ?h"
    using us unfolding users_wf_def by (auto simp: install_simps split: if_splits option.splits)
  ultimately show ?thesis by (simp add: hub_inv_def)
qed

lemma replay_frame:
  "registerClient_replay client us h = Inr h' \<Longrightarrow>
     Users h' = Users h \<and> Conversations h' = Conversations h
     \<and> (\<forall>u x. Clients h' u = Some x \<longrightarrow> Clients h u = Some x)
     \<and> (\<forall>a. Chan_closed (chans h a) \<longrightarrow> Chan_closed (chans h' a))
     \<and> (\<forall>a. a \<noteq> Client_Send client \<longrightarrow> chans h' a = chans h a)"
proof (induction us arbitrary: h)
  case Nil
  then show ?case by simp
next
  case (Cons u us)
  show ?case
  proof (cases "replay_target h client u")
    case False
    with Cons.prems have "registerClient_replay client us h = Inr h'"
      by (auto simp: replay_target_def split: option.splits if_splits)
    from Cons.IH [OF this] show ?thesis .
  next
    case True
    with Cons.prems obtain h1 where
      h1: "sendToClient h client ''status''
             (PStatusEvent \<lparr>StatusEvent_Username = u, StatusEvent_Online = True\<rparr>) = Inr h1"
      and rest: "registerClient_replay client us h1 = Inr h'"
      by (auto simp: replay_target_def split: option.splits if_splits sum.splits)
    from sendToClient_Inr [OF h1] obtain f where eq: "h1 = deliver h client f" by blast
    from Cons.IH [OF rest] show ?thesis
      unfolding eq
      by (auto simp: deliver_simps deliver_other dest: deliver_Clients_sub intro: deliver_closed_mono)
  qed
qed

lemma replay_inv:
  "hub_inv h \<Longrightarrow> live h client \<Longrightarrow> registerClient_replay client us h = Inr h' \<Longrightarrow> hub_inv h'"
proof (induction us arbitrary: h)
  case Nil
  then show ?case by simp
next
  case (Cons u us)
  show ?case
  proof (cases "replay_target h client u")
    case False
    with Cons.prems have "registerClient_replay client us h = Inr h'"
      by (auto simp: replay_target_def split: option.splits if_splits)
    from Cons.IH [OF Cons.prems(1,2) this] show ?thesis .
  next
    case True
    with Cons.prems obtain h1 where
      h1: "sendToClient h client ''status''
             (PStatusEvent \<lparr>StatusEvent_Username = u, StatusEvent_Online = True\<rparr>) = Inr h1"
      and rest: "registerClient_replay client us h1 = Inr h'"
      by (auto simp: replay_target_def split: option.splits if_splits sum.splits)
    from send_live [OF Cons.prems(1,2) h1] Cons.prems(2)
    have "hub_inv h1" "live h1 client" by blast+
    from Cons.IH [OF this rest] show ?thesis .
  qed
qed

lemma replay_step:
  "registerClient_replay client (u # us) h =
     (if replay_target h client u
      then (case sendToClient h client ''status''
                   (PStatusEvent \<lparr>StatusEvent_Username = u, StatusEvent_Online = True\<rparr>) of
              Inl e \<Rightarrow> Inl e
            | Inr h' \<Rightarrow> registerClient_replay client us h')
      else registerClient_replay client us h)"
  by (auto simp: replay_target_def split: option.splits)

lemma replay_targets_Users:
  "Users h' = Users h \<Longrightarrow> replay_targets h' client us = replay_targets h client us"
  by (simp add: replay_targets_def replay_target_def [abs_def])

lemma replay_targets_Cons:
  "replay_targets h client (u # us) =
     (if replay_target h client u then u # replay_targets h client us else replay_targets h client us)"
  by (simp add: replay_targets_def)

lemma replay_closed:
  "Chan_closed (chans h (Client_Send client)) \<Longrightarrow> replay_targets h client us \<noteq> []
     \<Longrightarrow> registerClient_replay client us h = Inl SendOnClosedChannel"
proof (induction us)
  case Nil
  then show ?case by (simp add: replay_targets_def)
next
  case (Cons u us)
  then show ?case
    by (auto simp del: registerClient_replay.simps
        simp: replay_step replay_targets_Cons sendToClient_cases split: if_splits)
qed

lemma replay_overflow:
  "\<not> Chan_closed (chans h (Client_Send client))
     \<Longrightarrow> Chan_cap (chans h (Client_Send client)) - length (Chan_buf (chans h (Client_Send client))) + 2
           \<le> length (replay_targets h client us)
     \<Longrightarrow> registerClient_replay client us h = Inl SendOnClosedChannel"
proof (induction us arbitrary: h)
  case Nil
  then show ?case by (simp add: replay_targets_def)
next
  case (Cons u us)
  show ?case
  proof (cases "replay_target h client u")
    case False
    with Cons show ?thesis
      by (simp del: registerClient_replay.simps add: replay_step replay_targets_Cons)
  next
    case True
    let ?f = "envelope ''status'' (PStatusEvent \<lparr>StatusEvent_Username = u, StatusEvent_Online = True\<rparr>)"
    let ?h1 = "deliver h client ?f"
    have step: "registerClient_replay client (u # us) h = registerClient_replay client us ?h1"
      using True Cons.prems(1)
      by (simp del: registerClient_replay.simps add: replay_step sendToClient_cases)
    have tg: "replay_targets ?h1 client us = replay_targets h client us"
      by (rule replay_targets_Users) (simp add: deliver_simps)
    from Cons.prems(2) True
    have len: "Chan_cap (chans h (Client_Send client)) - length (Chan_buf (chans h (Client_Send client))) + 1
           \<le> length (replay_targets h client us)"
      by (simp add: replay_targets_Cons)
    show ?thesis
    proof (cases "full h client")
      case True
      then have "Chan_closed (chans ?h1 (Client_Send client))"
        by (simp add: deliver_def disconnect_simps)
      moreover from len have "replay_targets ?h1 client us \<noteq> []" unfolding tg by auto
      ultimately show ?thesis unfolding step by (rule replay_closed)
    next
      case False
      then have op: "\<not> Chan_closed (chans ?h1 (Client_Send client))"
        using Cons.prems(1) by (simp add: deliver_def enqueue_simps)
      from False len
      have "Chan_cap (chans ?h1 (Client_Send client)) - length (Chan_buf (chans ?h1 (Client_Send client))) + 2
           \<le> length (replay_targets ?h1 client us)"
        unfolding tg by (simp add: deliver_def enqueue_simps full_def)
      from Cons.IH [OF op this] show ?thesis unfolding step .
    qed
  qed
qed

lemma enqueue_all_simps:
  "Clients (enqueue_all h c fs) = Clients h"
  "Users (enqueue_all h c fs) = Users h"
  "Conversations (enqueue_all h c fs) = Conversations h"
  "Chan_closed (chans (enqueue_all h c fs) a) = Chan_closed (chans h a)"
  "Chan_cap (chans (enqueue_all h c fs) a) = Chan_cap (chans h a)"
  "Chan_buf (chans (enqueue_all h c fs) a) =
     (if a = Client_Send c then Chan_buf (chans h a) @ fs else Chan_buf (chans h a))"
  unfolding enqueue_all_def
  by (induction fs arbitrary: h; simp add: enqueue_simps)+

lemma enqueue_all_Cons: "enqueue_all h c (f # fs) = enqueue_all (enqueue h c f) c fs"
  by (simp add: enqueue_all_def)

lemma hub_inv_enqueue_all: "hub_inv h \<Longrightarrow> hub_inv (enqueue_all h c fs)"
  unfolding enqueue_all_def by (induction fs arbitrary: h) (simp_all add: hub_inv_enqueue)

lemma replay_room:
  "\<not> Chan_closed (chans h (Client_Send client))
     \<Longrightarrow> room h client (length (replay_targets h client us))
     \<Longrightarrow> registerClient_replay client us h =
           Inr (enqueue_all h client (map (\<lambda>u. status_envelope u True) (replay_targets h client us)))"
proof (induction us arbitrary: h)
  case Nil
  then show ?case by (simp add: replay_targets_def enqueue_all_def)
next
  case (Cons u us)
  show ?case
  proof (cases "replay_target h client u")
    case False
    with Cons show ?thesis
      by (simp del: registerClient_replay.simps add: replay_step replay_targets_Cons)
  next
    case True
    let ?f = "status_envelope u True"
    let ?h1 = "enqueue h client ?f"
    from Cons.prems(2) True have r: "room h client (Suc (length (replay_targets h client us)))"
      by (simp add: replay_targets_Cons)
    then have nf: "\<not> full h client" by (simp add: room_def full_def)
    have step: "registerClient_replay client (u # us) h = registerClient_replay client us ?h1"
      using True Cons.prems(1) nf
      by (simp del: registerClient_replay.simps
          add: replay_step sendToClient_cases deliver_def status_envelope_def)
    have tg: "replay_targets ?h1 client us = replay_targets h client us"
      by (rule replay_targets_Users) (simp add: enqueue_simps)
    have op: "\<not> Chan_closed (chans ?h1 (Client_Send client))"
      using Cons.prems(1) by (simp add: enqueue_simps)
    have r1: "room ?h1 client (length (replay_targets ?h1 client us))"
      using r unfolding tg by (simp add: room_enqueue)
    from Cons.IH [OF op r1] True show ?thesis
      unfolding step tg by (simp add: replay_targets_Cons enqueue_all_Cons)
  qed
qed

lemma fresh_evicted:
  assumes "hub_inv h" and "fresh h client"
  shows "fresh (evicted h name) client
     \<and> chans (evicted h name) (Client_Send client) = chans h (Client_Send client)"
proof (cases "Clients h name")
  case None
  with assms(2) show ?thesis by (simp add: evicted_def)
next
  case (Some old)
  from assms(2) have op: "\<not> Chan_closed (chans h (Client_Send client))"
    and fr: "\<And>u c. Clients h u = Some c \<Longrightarrow> Client_Send c \<noteq> Client_Send client"
    by (simp_all add: fresh_def)
  from fr [OF Some] have ne: "Client_Send client \<noteq> Client_Send old" by simp
  have ev: "evicted h name = disconnect h old" using Some by (simp add: evicted_def)
  have same: "chans (evicted h name) (Client_Send client) = chans h (Client_Send client)"
    unfolding ev using ne by (simp add: disconnect_other)
  have "fresh (disconnect h old) client"
    unfolding fresh_def
  proof (intro conjI allI impI)
    show "\<not> Chan_closed (chans (disconnect h old) (Client_Send client))"
      using op ne by (simp add: disconnect_simps)
    fix u c assume "Clients (disconnect h old) u = Some c"
    then have "Clients h u = Some c" by (simp add: disconnect_simps split: if_splits)
    then show "Client_Send c \<noteq> Client_Send client" by (rule fr)
  qed
  with same ev show ?thesis by simp
qed

lemma replay_targets_install:
  assumes "Users h3 = Users (registerClient_install h1 now client)" and "Users h1 = Users h"
  shows "replay_targets h3 client us = replay_targets h client us"
proof -
  have "replay_target h3 client u = replay_target h client u" for u
    using assms by (simp add: replay_target_def install_simps split: option.splits)
  then have "replay_target h3 client = replay_target h client" by (rule ext)
  then show ?thesis by (simp add: replay_targets_def)
qed

lemma registerClient_broadcast:
  assumes inv: "hub_inv h" and fr: "fresh h client"
  shows "\<exists>h3. hub_inv h3 \<and> Clients h3 (Client_Username client) = Some client
     \<and> chans h3 (Client_Send client) = chans h (Client_Send client)
     \<and> replay_targets h3 client us = replay_targets h client us
     \<and> dom (Users h3) = insert (Client_Username client) (dom (Users h))
     \<and> Conversations h3 = Conversations h
     \<and> (\<forall>u x. Clients h3 u = Some x \<longrightarrow> u \<noteq> Client_Username client \<longrightarrow> Clients h u = Some x)
     \<and> (\<forall>old. Clients h (Client_Username client) = Some old \<longrightarrow>
            Chan_closed (chans h3 (Client_Send old)))
     \<and> registerClient h ks us now client =
         (case registerClient_replay client us h3 of Inl e \<Rightarrow> Inl e | Inr h4 \<Rightarrow> Inr (h4, True))"
proof -
  let ?name = "Client_Username client"
  let ?h1 = "evicted h ?name"
  let ?h2 = "registerClient_install ?h1 now client"
  let ?ev = "PStatusEvent \<lparr>StatusEvent_Username = ?name, StatusEvent_Online = True\<rparr>"
  note e1 = evicted_inv [OF inv, of ?name]
  from e1 have inv1: "hub_inv ?h1" by blast
  from fresh_evicted [OF inv fr, of ?name] have fr1: "fresh ?h1 client"
    and ch1: "chans ?h1 (Client_Send client) = chans h (Client_Send client)" by blast+
  have inv2: "hub_inv ?h2" using inv1 fr1 by (rule install_inv)
  from broadcast_returns [OF inv2, of ?name ?ev ks] obtain h3
    where run: "broadcastStatus_loop ?name ?ev ks ?h2 = Inr h3" and inv3: "hub_inv h3" by blast
  from broadcast_frame [OF run] have fr3: "Users h3 = Users ?h2" "Conversations h3 = Conversations ?h2"
    "\<forall>u x. Clients h3 u = Some x \<longrightarrow> Clients ?h2 u = Some x"
    "\<forall>a. Chan_closed (chans ?h2 a) \<longrightarrow> Chan_closed (chans h3 a)" by simp_all
  have reg3: "Clients h3 ?name = Some client"
    using broadcast_keeps_client [OF inv2 run, of ?name] by (simp add: install_simps)
  have "\<forall>u c. Clients ?h2 u = Some c \<longrightarrow> u \<in> set ks \<longrightarrow> u \<noteq> ?name \<longrightarrow>
          Client_Send c \<noteq> Client_Send client"
  proof (intro allI impI)
    fix u c assume "Clients ?h2 u = Some c" and "u \<noteq> ?name"
    then have "Clients ?h1 u = Some c" by (simp add: install_simps)
    with fr1 show "Client_Send c \<noteq> Client_Send client" unfolding fresh_def by blast
  qed
  from broadcast_keeps_chan [OF inv2 run this]
  have ch3: "chans h3 (Client_Send client) = chans h (Client_Send client)"
    using ch1 by (simp add: install_simps)
  have tg: "replay_targets h3 client us = replay_targets h client us"
    using fr3(1) by (rule replay_targets_install) (simp add: evicted_simps)
  have dm: "dom (Users h3) = insert ?name (dom (Users h))"
    by (simp add: fr3(1) install_simps evicted_simps)
  have cv: "Conversations h3 = Conversations h"
    by (simp add: fr3(2) install_simps evicted_simps)
  from e1 have e1c: "\<And>u c. Clients ?h1 u = Some c \<Longrightarrow> Clients h u = Some c"
    and e1e: "\<And>old. Clients h ?name = Some old \<Longrightarrow> Chan_closed (chans ?h1 (Client_Send old))"
    by blast+
  have sub: "\<forall>u x. Clients h3 u = Some x \<longrightarrow> u \<noteq> ?name \<longrightarrow> Clients h u = Some x"
  proof (intro allI impI)
    fix u x assume c3: "Clients h3 u = Some x" and ne: "u \<noteq> ?name"
    from fr3(3) c3 have "Clients ?h2 u = Some x" by blast
    with ne have "Clients ?h1 u = Some x" by (simp add: install_simps)
    then show "Clients h u = Some x" by (rule e1c)
  qed
  have old: "\<forall>old. Clients h ?name = Some old \<longrightarrow> Chan_closed (chans h3 (Client_Send old))"
  proof (intro allI impI)
    fix old assume "Clients h ?name = Some old"
    from e1e [OF this] have "Chan_closed (chans ?h2 (Client_Send old))" by (simp add: install_simps)
    with fr3(4) show "Chan_closed (chans h3 (Client_Send old))" by blast
  qed
  have res: "registerClient h ks us now client =
         (case registerClient_replay client us h3 of Inl e \<Rightarrow> Inl e | Inr h4 \<Rightarrow> Inr (h4, True))"
    using evict_inv [OF inv, of ?name] run
    by (simp add: registerClient_def broadcastStatus_def Let_def)
  from inv3 reg3 ch3 tg dm cv sub old res show ?thesis by blast
qed

lemma hub_inv_registerClient:
  assumes "hub_inv h" and "fresh h client" and "registerClient h ks us now client = Inr (h', b)"
  shows "hub_inv h' \<and> b"
proof -
  from registerClient_broadcast [OF assms(1,2), of us ks now] obtain h3 where
    h3: "hub_inv h3" "Clients h3 (Client_Username client) = Some client"
    "registerClient h ks us now client =
         (case registerClient_replay client us h3 of Inl e \<Rightarrow> Inl e | Inr h4 \<Rightarrow> Inr (h4, True))"
    by blast
  from h3(3) assms(3) have rp: "registerClient_replay client us h3 = Inr h'" and b: b
    by (auto split: sum.splits)
  from h3(2) have "live h3 client" by (simp add: live_def registered_def)
  from replay_inv [OF h3(1) this rp] b show ?thesis by simp
qed

lemma registerClient_overflow:
  assumes "hub_inv h" and "fresh h client"
    and "Chan_cap (chans h (Client_Send client)) - length (Chan_buf (chans h (Client_Send client))) + 2
           \<le> length (replay_targets h client us)"
  shows "registerClient h ks us now client = Inl SendOnClosedChannel"
proof -
  from registerClient_broadcast [OF assms(1,2), of us ks now] obtain h3 where
    h3: "chans h3 (Client_Send client) = chans h (Client_Send client)"
    "replay_targets h3 client us = replay_targets h client us"
    "registerClient h ks us now client =
         (case registerClient_replay client us h3 of Inl e \<Rightarrow> Inl e | Inr h4 \<Rightarrow> Inr (h4, True))"
    by blast
  from assms(2) h3(1) have op: "\<not> Chan_closed (chans h3 (Client_Send client))"
    by (simp add: fresh_def)
  from assms(3) h3(1,2)
  have "Chan_cap (chans h3 (Client_Send client)) - length (Chan_buf (chans h3 (Client_Send client))) + 2
           \<le> length (replay_targets h3 client us)" by simp
  from replay_overflow [OF op this] h3(3) show ?thesis by simp
qed

lemma registerClient_evicts:
  assumes inv: "hub_inv h" and fr: "fresh h client"
    and rm: "room h client (length (replay_targets h client us))"
  shows "\<exists>h'. registerClient h ks us now client = Inr (h', True) \<and> hub_inv h'
     \<and> Clients h' (Client_Username client) = Some client
     \<and> (\<forall>old. Clients h (Client_Username client) = Some old \<longrightarrow>
            Chan_closed (chans h' (Client_Send old)) \<and> (\<forall>u. Clients h' u \<noteq> Some old))
     \<and> new_frames h h' (Client_Send client) =
         map (\<lambda>u. status_envelope u True) (replay_targets h client us)"
proof -
  let ?name = "Client_Username client"
  from registerClient_broadcast [OF inv fr, of us ks now] obtain h3 where
    h3: "hub_inv h3" "Clients h3 ?name = Some client"
    "chans h3 (Client_Send client) = chans h (Client_Send client)"
    "replay_targets h3 client us = replay_targets h client us"
    "\<forall>u x. Clients h3 u = Some x \<longrightarrow> u \<noteq> ?name \<longrightarrow> Clients h u = Some x"
    "\<forall>old. Clients h ?name = Some old \<longrightarrow> Chan_closed (chans h3 (Client_Send old))"
    "registerClient h ks us now client =
         (case registerClient_replay client us h3 of Inl e \<Rightarrow> Inl e | Inr h4 \<Rightarrow> Inr (h4, True))"
    by blast
  let ?fs = "map (\<lambda>u. status_envelope u True) (replay_targets h client us)"
  let ?h' = "enqueue_all h3 client ?fs"
  from fr h3(3) have op: "\<not> Chan_closed (chans h3 (Client_Send client))" by (simp add: fresh_def)
  from rm h3(3,4) have "room h3 client (length (replay_targets h3 client us))"
    by (simp add: room_def)
  from replay_room [OF op this] h3(4,7)
  have res: "registerClient h ks us now client = Inr (?h', True)" by simp
  have inv': "hub_inv ?h'" using h3(1) by (rule hub_inv_enqueue_all)
  have reg: "Clients ?h' ?name = Some client" using h3(2) by (simp add: enqueue_all_simps)
  have old: "\<forall>old. Clients h ?name = Some old \<longrightarrow>
            Chan_closed (chans ?h' (Client_Send old)) \<and> (\<forall>u. Clients ?h' u \<noteq> Some old)"
  proof (intro allI impI conjI)
    fix old assume o: "Clients h ?name = Some old"
    with h3(6) show "Chan_closed (chans ?h' (Client_Send old))" by (simp add: enqueue_all_simps)
    fix u
    show "Clients ?h' u \<noteq> Some old"
    proof
      assume "Clients ?h' u = Some old"
      then have c3: "Clients h3 u = Some old" by (simp add: enqueue_all_simps)
      show False
      proof (cases "u = ?name")
        case True
        with c3 h3(2) have "old = client" by simp
        with o fr show False by (auto simp: fresh_def)
      next
        case False
        with c3 h3(5) have "Clients h u = Some old" by blast
        from registered_name [OF inv this] registered_name [OF inv o] False show False by simp
      qed
    qed
  qed
  have nf: "new_frames h ?h' (Client_Send client) = ?fs"
    using h3(3) by (simp add: new_frames_def enqueue_all_simps)
  from res inv' reg old nf show ?thesis by blast
qed

text \<open>The crowded hub is well-formed, and the newcomer is a fresh connection.\<close>

lemma crowd_name_shape: "k \<in> set (crowd_names n) \<Longrightarrow> k = replicate (length k) CHR ''u'' \<and> 0 < length k"
  by (auto simp: crowd_names_def name_of_def)

lemma crowd_name_eq:
  "k \<in> set (crowd_names n) \<Longrightarrow> k' \<in> set (crowd_names n) \<Longrightarrow> length k = length k' \<Longrightarrow> k = k'"
  using crowd_name_shape by metis

lemma new_not_crowd: "''new'' \<notin> set (crowd_names n)"
  by (auto simp: crowd_names_def name_of_def)

lemma hub_inv_crowd: "hub_inv (crowd n)"
proof -
  have "clients_wf (crowd n)"
    by (auto simp: clients_wf_def crowd_def crowd_conn_def empty_chan_def split: if_splits)
  moreover have "clients_inj (crowd n)"
    unfolding clients_inj_def
    by (auto simp: crowd_def crowd_conn_def split: if_splits intro: crowd_name_eq)
  moreover have "presence_wf (crowd n)"
    by (auto simp: presence_wf_def crowd_def split: if_splits)
  moreover have "users_wf (crowd n)"
    by (auto simp: users_wf_def crowd_def split: if_splits)
  ultimately show ?thesis by (simp add: hub_inv_def)
qed

lemma fresh_crowd: "fresh (crowd n) newcomer"
  unfolding fresh_def
  by (auto simp: crowd_def crowd_conn_def newcomer_def empty_chan_def
      split: if_splits dest: crowd_name_shape)

lemma crowd_targets:
  "replay_targets (crowd n) newcomer (''new'' # crowd_names n) = crowd_names n"
proof -
  have a: "\<not> replay_target (crowd n) newcomer ''new''"
    by (simp add: replay_target_def crowd_def newcomer_def new_not_crowd)
  have b: "\<forall>k \<in> set (crowd_names n). replay_target (crowd n) newcomer k"
    using new_not_crowd [of n] by (auto simp: replay_target_def crowd_def newcomer_def)
  from a b show ?thesis by (simp add: replay_targets_def)
qed

lemma crowd_order:
  "range_order (Users (registerClient_install (evicted (crowd n) ''new'') now newcomer))
     (''new'' # crowd_names n)"
proof -
  have "distinct (crowd_names n)"
    unfolding crowd_names_def
    by (auto simp: distinct_map inj_on_def name_of_def)
  moreover have "dom (Users (crowd n)) = set (crowd_names n)"
    by (auto simp: crowd_def split: if_splits)
  ultimately show ?thesis
    using new_not_crowd [of n]
    by (auto simp: range_order_def install_simps evicted_simps newcomer_def)
qed

section \<open>Histories and the user table\<close>

lemma keeps_users_refl: "keeps_users h h"
  by (simp add: keeps_users_def)

lemma keeps_users_eq: "Users h' = Users h \<Longrightarrow> keeps_users h h'"
  by (simp add: keeps_users_def)

lemma keeps_users_trans: "keeps_users h h1 \<Longrightarrow> keeps_users h1 h2 \<Longrightarrow> keeps_users h h2"
  unfolding keeps_users_def by (metis (no_types, lifting))

lemma registerClient_Users:
  assumes "registerClient h ks us now client = Inr (h', ok)"
  shows "\<exists>h1. Users h1 = Users h \<and> Users h' = Users (registerClient_install h1 now client)"
proof -
  from assms obtain h1 h2 where
    e: "registerClient_evict h (Client_Username client) = Inr h1"
    and b: "broadcastStatus (registerClient_install h1 now client) ks (Client_Username client) True = Inr h2"
    and r: "registerClient_replay client us h2 = Inr h'"
    by (auto simp: registerClient_def Let_def split: sum.splits)
  from evict_frame [OF e] have "Users h1 = Users h" by simp
  moreover from b have "Users h2 = Users (registerClient_install h1 now client)"
    unfolding broadcastStatus_def by (auto dest: broadcast_frame)
  moreover from replay_frame [OF r] have "Users h' = Users h2" by simp
  ultimately show ?thesis by auto
qed

lemma registerClient_keeps:
  assumes "registerClient h ks us now client = Inr (h', ok)"
  shows "keeps_users h h'"
proof -
  from registerClient_Users [OF assms] obtain h1 where
    "Users h1 = Users h" "Users h' = Users (registerClient_install h1 now client)" by blast
  then show ?thesis
    by (auto simp: keeps_users_def install_simps split: option.splits)
qed

lemma unregisterClient_Users:
  assumes "unregisterClient h ks now client = Inr h'"
  shows "Users h' = (if Clients h (Client_Username client) = Some client
                     then Users (mark_offline h now client) else Users h)"
proof (cases "Clients h (Client_Username client) = Some client")
  case False
  with assms show ?thesis by (simp add: unregisterClient_unfold)
next
  case True
  with assms obtain h3 where
    s: "unregisterClient_select (mark_offline h now client) (Client_Send client) = Inr h3"
    and b: "broadcastStatus h3 ks (Client_Username client) False = Inr h'"
    by (auto simp: unregisterClient_unfold split: sum.splits)
  from select_frame [OF s] have "Users h3 = Users (mark_offline h now client)" by simp
  moreover from b have "Users h' = Users h3"
    unfolding broadcastStatus_def by (auto dest: broadcast_frame)
  ultimately show ?thesis using True by simp
qed

lemma unregisterClient_keeps:
  assumes "unregisterClient h ks now client = Inr h'"
  shows "keeps_users h h'"
  using unregisterClient_Users [OF assms]
  by (auto simp: keeps_users_def mark_offline_simps split: option.splits if_splits)

lemma handleInbound_Users:
  assumes "handleInboundMessageWithSender h newID now from msg = Inr h'"
  shows "Users h' = Users h"
proof -
  let ?m = "new_message newID now from msg"
  let ?key = "ConvKey from (InboundMessage_To msg)"
  let ?h1 = "append_log h ?key ?m"
  from assms obtain h2 where
    s1: "(case Clients h from of None \<Rightarrow> Inr ?h1
          | Some sc \<Rightarrow> sendToClient ?h1 sc ''message'' (WSMessage_Payload (message_envelope ?m ''sent''))) = Inr h2"
    and r2: "(case Clients h (InboundMessage_To msg) of
                None \<Rightarrow> Inr h2
              | Some rc \<Rightarrow>
                  (case sendToClient h2 rc ''message'' (WSMessage_Payload (message_envelope ?m ''delivered'')) of
                     Inl e \<Rightarrow> Inl e
                   | Inr h3 \<Rightarrow>
                       (case Clients h from of
                          None \<Rightarrow> Inr (mark_delivered h3 ?key)
                        | Some sc \<Rightarrow> sendToClient (mark_delivered h3 ?key) sc ''ack''
                                      (WSMessage_Payload (ack_envelope ?m))))) = Inr h'"
    by (auto simp: handleInbound_unfold Let_def split: sum.splits)
  have u2: "Users h2 = Users h"
    using s1 by (auto simp: append_log_simps deliver_simps split: option.splits dest!: sendToClient_Inr)
  show ?thesis
  proof (cases "Clients h (InboundMessage_To msg)")
    case None
    with r2 u2 show ?thesis by simp
  next
    case (Some rc)
    with r2 obtain h3 where
      s3: "sendToClient h2 rc ''message'' (WSMessage_Payload (message_envelope ?m ''delivered'')) = Inr h3"
      and r4: "(case Clients h from of
                  None \<Rightarrow> Inr (mark_delivered h3 ?key)
                | Some sc \<Rightarrow> sendToClient (mark_delivered h3 ?key) sc ''ack''
                              (WSMessage_Payload (ack_envelope ?m))) = Inr h'"
      by (auto split: sum.splits)
    from sendToClient_Inr [OF s3] u2 have u3: "Users h3 = Users h" by (simp add: deliver_simps)
    from r4 u3 show ?thesis
      by (auto simp: mark_delivered_simps deliver_simps split: option.splits dest!: sendToClient_Inr)
  qed
qed

lemma handleTypingEvent_Users:
  "handleTypingEvent h ev = Inr h' \<Longrightarrow> Users h' = Users h"
  by (auto simp: handleTypingEvent_cases deliver_simps split: option.splits dest!: sendToClient_Inr)

lemma apply_event_keeps: "apply_event h e = Inr h' \<Longrightarrow> keeps_users h h'"
proof (cases e)
  case (Register ks us now client)
  assume "apply_event h e = Inr h'"
  with Register obtain ok where "registerClient h ks us now client = Inr (h', ok)"
    by (auto split: sum.splits)
  then show ?thesis by (rule registerClient_keeps)
next
  case (Unregister ks now client)
  assume "apply_event h e = Inr h'"
  with Unregister show ?thesis by (simp add: unregisterClient_keeps)
next
  case (RouteMessage newID now sender msg)
  assume "apply_event h e = Inr h'"
  with RouteMessage show ?thesis by (simp add: handleInbound_Users keeps_users_eq)
next
  case (RouteTyping ev)
  assume "apply_event h e = Inr h'"
  with RouteTyping show ?thesis by (simp add: handleTypingEvent_Users keeps_users_eq)
qed

lemma run_keeps: "run h evs = Inr h' \<Longrightarrow> keeps_users h h'"
proof (induction evs arbitrary: h)
  case Nil
  then show ?case by (simp add: keeps_users_refl)
next
  case (Cons e es)
  then obtain h1 where a: "apply_event h e = Inr h1" and r: "run h1 es = Inr h'"
    by (auto split: sum.splits)
  from apply_event_keeps [OF a] Cons.IH [OF r] show ?case by (rule keeps_users_trans)
qed

text \<open>
  Well-formedness is an invariant of the hub: the new hub has it and every
  event that returns keeps it, a registration being of a fresh connection.
\<close>

lemma hub_inv_NewHub: "hub_inv (NewHub store)"
  by (simp add: hub_inv_def clients_wf_def clients_inj_def presence_wf_def users_wf_def NewHub_def)

lemma hub_inv_unregisterClient:
  assumes inv: "hub_inv h" and run: "unregisterClient h ks now client = Inr h'"
  shows "hub_inv h'"
proof (cases "Clients h (Client_Username client) = Some client")
  case False
  with run inv show ?thesis by (simp add: unregisterClient_unfold)
next
  case True
  let ?h2 = "mark_offline h now client"
  from run True obtain h3 where
    s: "unregisterClient_select ?h2 (Client_Send client) = Inr h3"
    and b: "broadcastStatus h3 ks (Client_Username client) False = Inr h'"
    by (auto simp: unregisterClient_unfold split: sum.splits)
  have inv2: "hub_inv ?h2" using inv by (rule hub_inv_mark_offline)
  have free2: "\<forall>u c. Clients ?h2 u = Some c \<longrightarrow> Client_Send c \<noteq> Client_Send client"
  proof (intro allI impI)
    fix u c assume "Clients ?h2 u = Some c"
    then have c: "Clients h u = Some c" and u: "u \<noteq> Client_Username client"
      by (auto simp: mark_offline_simps split: if_splits)
    from registered_distinct_chan [OF inv c True u] show "Client_Send c \<noteq> Client_Send client" .
  qed
  have inv3: "hub_inv h3" using inv2 free2 s by (rule hub_inv_select)
  from broadcast_returns [OF inv3] b show ?thesis
    unfolding broadcastStatus_def by (metis sum.inject(2))
qed

lemma hub_inv_handleTypingEvent:
  assumes "hub_inv h" and "handleTypingEvent h ev = Inr h'"
  shows "hub_inv h'"
proof (cases "Clients h (Wrapper_To ev)")
  case None
  with assms show ?thesis by (simp add: handleTypingEvent_cases)
next
  case (Some rc)
  with assms(2) have "h' = deliver h rc (typing_envelope ev)"
    by (simp add: handleTypingEvent_cases sendToClient_registered [OF assms(1) Some] envelope_typing)
  with hub_inv_deliver [OF assms(1) registered_lookup [OF assms(1) Some]] show ?thesis by simp
qed

lemma hub_inv_apply_event:
  assumes "hub_inv h" and "apply_event h e = Inr h'"
    and "\<And>ks us now client. e = Register ks us now client \<Longrightarrow> fresh h client"
  shows "hub_inv h'"
proof (cases e)
  case (Register ks us now client)
  with assms(2) obtain ok where "registerClient h ks us now client = Inr (h', ok)"
    by (auto split: sum.splits)
  from hub_inv_registerClient [OF assms(1) assms(3) [OF Register] this] show ?thesis by simp
next
  case (Unregister ks now client)
  with assms show ?thesis by (auto intro: hub_inv_unregisterClient)
next
  case (RouteMessage newID now sender msg)
  with assms(2) have "handleInboundMessageWithSender h newID now sender msg = Inr h'" by simp
  from hub_inv_handleInbound [OF assms(1) this] show ?thesis by simp
next
  case (RouteTyping ev)
  with assms show ?thesis by (auto intro: hub_inv_handleTypingEvent)
qed

section \<open>Conversation keys and histories\<close>

lemma ConvKey_commute: "ConvKey a b = ConvKey b a"
  by (auto simp: ConvKey_def)

text \<open>
  C5. For every pair of identities and every hub state the history of (a, b) is
  the history of (b, a), in the same order, because the key of the pair does
  not depend on the order of its members; and when the log of the pair holds
  no message (there is no log, or an empty one) the result is the empty
  sequence. The query returns a sequence on every input: it has no error
  result.
\<close>

theorem GetConversationMessages_symmetric:
  "GetConversationMessages h a b = GetConversationMessages h b a
   \<and> ConvKey a b = ConvKey b a
   \<and> ((\<forall>ms. Conversations h (ConvKey a b) = Some ms \<longrightarrow> ms = [])
        \<longrightarrow> GetConversationMessages h a b = [])"
proof -
  have "GetConversationMessages h a b = GetConversationMessages h b a"
    by (simp add: GetConversationMessages_def ConvKey_commute)
  moreover have "(\<forall>ms. Conversations h (ConvKey a b) = Some ms \<longrightarrow> ms = [])
        \<longrightarrow> GetConversationMessages h a b = []"
    by (cases "Conversations h (ConvKey a b)") (simp_all add: GetConversationMessages_def log_of_def)
  ultimately show ?thesis
    using ConvKey_commute by blast
qed

theorem GetConversationMessages_symmetric_witness:
  "Conversations hub_alice_online (ConvKey ''alice'' ''bob'') = None
   \<and> GetConversationMessages hub_alice_online ''alice'' ''bob'' = []
   \<and> GetConversationMessages hub_alice_online ''bob'' ''alice'' = []"
proof -
  have none: "Conversations hub_alice_online (ConvKey ''alice'' ''bob'') = None"
    by (simp add: hub_alice_online_def)
  note sym = GetConversationMessages_symmetric [of hub_alice_online "''alice''" "''bob''"]
  from none have "\<forall>ms. Conversations hub_alice_online (ConvKey ''alice'' ''bob'') = Some ms
      \<longrightarrow> ms = []"
    by simp
  with sym have ab: "GetConversationMessages hub_alice_online ''alice'' ''bob'' = []"
    by blast
  from sym have "GetConversationMessages hub_alice_online ''alice'' ''bob'' =
      GetConversationMessages hub_alice_online ''bob'' ''alice''"
    by (rule conjunct1)
  with ab have ba: "GetConversationMessages hub_alice_online ''bob'' ''alice'' = []"
    by simp
  from none ab ba show ?thesis by blast
qed

section \<open>Search\<close>

lemma Contains_sublist: "Contains s sub \<longleftrightarrow> sublist sub s"
  by (induction s) (auto simp: sublist_Cons_right)

lemma sublist_at: "sublist sub s \<longleftrightarrow> (\<exists>i \<le> length s. take (length sub) (drop i s) = sub)"
proof
  assume "sublist sub s"
  then obtain pre post where s: "s = pre @ sub @ post" by (auto simp: sublist_def)
  then have "length pre \<le> length s \<and> take (length sub) (drop (length pre) s) = sub" by simp
  then show "\<exists>i \<le> length s. take (length sub) (drop i s) = sub" by blast
next
  assume "\<exists>i \<le> length s. take (length sub) (drop i s) = sub"
  then obtain i where i: "take (length sub) (drop i s) = sub" by blast
  have "s = take i s @ drop i s" by simp
  also have "drop i s = take (length sub) (drop i s) @ drop (length sub) (drop i s)"
    by (rule append_take_drop_id [symmetric])
  finally have "s = take i s @ take (length sub) (drop i s) @ drop (length sub) (drop i s)" .
  with i have "s = take i s @ sub @ drop (length sub) (drop i s)" by simp
  then show "sublist sub s" unfolding sublist_def by blast
qed

text \<open>Lowering a byte identifies exactly the two forms of one letter.\<close>

lemma capital_nat: "capital c \<longleftrightarrow> 65 \<le> (of_char c :: nat) \<and> (of_char c :: nat) \<le> 90"
  by (simp add: capital_def less_eq_char_def)

lemma toLower_char_nat:
  "(of_char (toLower_char c) :: nat) = (if capital c then of_char c + 32 else of_char c)"
  by (auto simp: toLower_char_def capital_nat less_eq_char_def)

lemma toLower_char_eq: "toLower_char a = toLower_char b \<longleftrightarrow> same_letter a b"
proof -
  have "toLower_char a = toLower_char b \<longleftrightarrow>
        (of_char (toLower_char a) :: nat) = of_char (toLower_char b)"
    by simp
  also have "\<dots> \<longleftrightarrow> same_letter a b"
    unfolding toLower_char_nat same_letter_def
    using of_char_eq_iff [of a b, where ?'a = nat]
    by (auto simp: capital_nat)
  finally show ?thesis .
qed

lemma map_toLower_eq:
  "map toLower_char xs = map toLower_char ys \<longleftrightarrow> list_all2 same_letter xs ys"
proof -
  have "map toLower_char xs = map toLower_char ys \<longleftrightarrow>
        list_all2 (=) (map toLower_char xs) (map toLower_char ys)"
    by (simp add: list.rel_eq)
  also have "\<dots> \<longleftrightarrow> list_all2 (\<lambda>a b. toLower_char a = toLower_char b) xs ys"
    by (simp add: list_all2_map1 list_all2_map2)
  finally show ?thesis by (simp add: toLower_char_eq)
qed

lemma ci_substring_at:
  "ci_substring q name \<longleftrightarrow>
     (\<exists>i \<le> length name. list_all2 same_letter (take (length q) (drop i name)) q)"
proof -
  have "set [0..<Suc (length name)] = {i. i \<le> length name}" by auto
  then show ?thesis unfolding ci_substring_def list_ex_iff by blast
qed

lemma ci_substring_lowered:
  "ci_substring q name \<longleftrightarrow> sublist (map toLower_char q) (map toLower_char name)"
  by (simp add: ci_substring_at sublist_at take_map drop_map map_toLower_eq)

lemma ci_substring_length: "ci_substring q name \<Longrightarrow> length q \<le> length name"
  by (auto simp: ci_substring_at dest!: list_all2_lengthD)

lemma ci_substring_empty: "ci_substring [] name"
  unfolding ci_substring_at by (rule exI [of _ 0]) simp

text \<open>
  On ASCII strings the library's rune mapping is never consulted, lowering
  keeps the byte length, and the test of the code is the specification's.
\<close>

lemma contains_ascii:
  assumes "isASCII s" and "isASCII q"
  shows "contains mapLower s q \<longleftrightarrow> ci_substring q s"
proof (cases "q = []")
  case True
  then show ?thesis by (simp add: contains_def ci_substring_empty)
next
  case False
  show ?thesis
  proof (cases "length s < length q")
    case True
    then have "\<not> ci_substring q s" using ci_substring_length [of q s] by auto
    with True False show ?thesis by (simp add: contains_def)
  next
    case nl: False
    with False assms show ?thesis
      by (simp add: contains_def ToLower_def Contains_sublist ci_substring_lowered)
  qed
qed

lemma SearchUsers_loop_eq:
  "SearchUsers_loop mapLower h q x ks results =
     results @ map search_result (filter (search_hit mapLower q x) (List.map_filter (Users h) ks))"
  by (induction ks arbitrary: results)
     (auto simp: search_hit_def search_result_def split: option.splits)

lemma SearchUsers_eq:
  "SearchUsers mapLower h ks q x =
     map search_result (filter (search_hit mapLower q x) (List.map_filter (Users h) ks))"
  by (simp add: SearchUsers_def SearchUsers_loop_eq)

lemma name_hit_ci:
  assumes "isASCII n" and "isASCII q"
  shows "name_hit mapLower q x n \<longleftrightarrow> n \<noteq> x \<and> ci_substring q n"
  using assms by (cases "q = []") (auto simp: name_hit_def contains_ascii ci_substring_empty)

lemma search_hit_name: "search_hit mapLower q x = name_hit mapLower q x \<circ> User_Username"
  by (rule ext) (simp add: search_hit_def name_hit_def)

lemma names_map_filter:
  "users_wf h \<Longrightarrow> map User_Username (List.map_filter (Users h) ks) = filter (\<lambda>k. Users h k \<noteq> None) ks"
  by (induction ks) (auto simp: users_wf_def split: option.splits)

lemma SearchUsers_names:
  assumes "users_wf h"
  shows "map User_Username (SearchUsers mapLower h ks q x) =
         filter (name_hit mapLower q x) (filter (\<lambda>k. Users h k \<noteq> None) ks)"
proof -
  have "map User_Username (SearchUsers mapLower h ks q x) =
        map User_Username (filter (name_hit mapLower q x \<circ> User_Username) (List.map_filter (Users h) ks))"
    by (simp add: SearchUsers_eq search_hit_name search_result_def comp_def)
  also have "\<dots> = filter (name_hit mapLower q x) (map User_Username (List.map_filter (Users h) ks))"
    by (simp add: filter_map)
  finally show ?thesis using assms by (simp add: names_map_filter)
qed

lemma in_map_filter: "u \<in> set (List.map_filter f ks) \<longleftrightarrow> (\<exists>k \<in> set ks. f k = Some u)"
  by (induction ks) (auto split: option.splits)

lemma SearchUsers_online:
  assumes "users_wf h" and "r \<in> set (SearchUsers mapLower h ks q x)"
  shows "\<exists>u. Users h (User_Username r) = Some u \<and> User_Online r = User_Online u"
proof -
  from assms(2) obtain u where u: "u \<in> set (List.map_filter (Users h) ks)" and r: "r = search_result u"
    by (auto simp: SearchUsers_eq)
  from u obtain k where "Users h k = Some u" by (auto simp: in_map_filter)
  with assms(1) have "Users h (User_Username u) = Some u" by (auto simp: users_wf_def)
  with r show ?thesis by (simp add: search_result_def)
qed

text \<open>
  The search on an ASCII fragment. Whatever the library's rune mapping is, on
  a well-formed table of ASCII names ranged over in any order the search
  returns exactly the known identities, online or not, in which the fragment
  occurs case aside, never the caller, each once and with its presence flag;
  the empty fragment gives every known identity but the caller.
\<close>

lemma SearchUsers_ascii_fragment:
  assumes "users_wf h" and "ascii_names h" and "range_order (Users h) ks" and "isASCII q"
  shows "set (map User_Username (SearchUsers mapLower h ks q x)) =
           {n \<in> dom (Users h). n \<noteq> x \<and> ci_substring q n}
    \<and> distinct (map User_Username (SearchUsers mapLower h ks q x))
    \<and> (q = [] \<longrightarrow> set (map User_Username (SearchUsers mapLower h ks q x)) = dom (Users h) - {x})
    \<and> (\<forall>r \<in> set (SearchUsers mapLower h ks q x).
          \<exists>u. Users h (User_Username r) = Some u \<and> User_Online r = User_Online u)"
proof -
  from assms(3) have d: "distinct ks" and s: "set ks = dom (Users h)"
    by (simp_all add: range_order_def)
  have asc: "isASCII n" if "n \<in> dom (Users h)" for n
    using that assms(2) by (auto simp: ascii_names_def)
  have hit: "name_hit mapLower q x n \<longleftrightarrow> n \<noteq> x \<and> ci_substring q n" if "n \<in> dom (Users h)" for n
    using name_hit_ci [OF asc [OF that] assms(4)] .
  have names: "set (map User_Username (SearchUsers mapLower h ks q x)) =
               {n \<in> dom (Users h). n \<noteq> x \<and> ci_substring q n}"
    using s hit by (auto simp: SearchUsers_names [OF assms(1)])
  have dist: "distinct (map User_Username (SearchUsers mapLower h ks q x))"
    using d by (simp add: SearchUsers_names [OF assms(1)])
  have all: "q = [] \<longrightarrow> set (map User_Username (SearchUsers mapLower h ks q x)) = dom (Users h) - {x}"
    using names by (auto simp: ci_substring_empty)
  have onl: "\<forall>r \<in> set (SearchUsers mapLower h ks q x).
          \<exists>u. Users h (User_Username r) = Some u \<and> User_Online r = User_Online u"
    using SearchUsers_online [OF assms(1)] by blast
  from names dist all onl show ?thesis by blast
qed

text \<open>
  The scenario of the specification: alice is online, bob asks for \<open>ALI\<close> and
  gets alice, once, as online.
\<close>

lemma SearchUsers_ascii_fragment_example:
  "users_wf hub_alice_online \<and> ascii_names hub_alice_online
   \<and> range_order (Users hub_alice_online) [''alice'', ''bob''] \<and> isASCII ''ALI''
   \<and> SearchUsers mapLower hub_alice_online [''alice'', ''bob''] ''ALI'' ''bob'' =
       [\<lparr>User_Username = ''alice'', User_Online = True, User_CurrentConn = None, User_LastSeen = 0\<rparr>]
   \<and> {n \<in> dom (Users hub_alice_online). n \<noteq> ''bob'' \<and> ci_substring ''ALI'' n} = {''alice''}"
proof -
  have wf: "users_wf hub_alice_online"
    by (auto simp: users_wf_def hub_alice_online_def split: if_splits)
  have an: "ascii_names hub_alice_online"
    by (auto simp: ascii_names_def hub_alice_online_def isASCII_def split: if_splits)
  have ro: "range_order (Users hub_alice_online) [''alice'', ''bob'']"
    by (auto simp: range_order_def hub_alice_online_def)
  have aq: "isASCII ''ALI''"
    by (simp add: isASCII_def)
  have run: "SearchUsers mapLower hub_alice_online [''alice'', ''bob''] ''ALI'' ''bob'' =
       [\<lparr>User_Username = ''alice'', User_Online = True, User_CurrentConn = None, User_LastSeen = 0\<rparr>]"
    by code_simp
  from SearchUsers_ascii_fragment [OF wf an ro aq, of mapLower "''bob''"] run
  have "{n \<in> dom (Users hub_alice_online). n \<noteq> ''bob'' \<and> ci_substring ''ALI'' n} = {''alice''}"
    by simp
  with wf an ro aq run show ?thesis by blast
qed

text \<open>
  The strings of the next scenario: the names are ASCII and lowered as they
  are, the three bytes of the fragment go to the library's rune mapping.
\<close>

lemma ToLower_kim: "ToLower mapLower ''kim'' = ''kim''"
  by code_simp

lemma ToLower_kelvin_sign: "ToLower mapLower kelvin_sign = mapLower kelvin_sign"
  by (simp add: ToLower_def isASCII_def kelvin_sign_def)

lemma length_kelvin_sign: "length kelvin_sign = 3"
  by (simp add: kelvin_sign_def)

text \<open>
  C9. The search does not return every known identity whose name contains the
  fragment case-insensitively. bob searches for U+212A, the KELVIN SIGN, whose
  lower case is the letter \<^verbatim>\<open>k\<close>, in a table that knows k and kim. \<^verbatim>\<open>contains\<close>
  turns the name k down at its length test (one byte against three) before
  anything is lowered, so k is missing from the result whatever the library's
  rune mapping gives; kim passes the length test and is returned exactly when
  the lowered fragment occurs in it, as it does with the library's \<^verbatim>\<open>k\<close>. For the
  capital letter \<^verbatim>\<open>K\<close> the same search returns both k and kim.
\<close>

theorem SearchUsers_short_name_missed:
  "SearchUsers mapLower hub_kim [''bob'', ''k'', ''kim''] kelvin_sign ''bob'' =
     (if Contains ''kim'' (mapLower kelvin_sign)
      then [\<lparr>User_Username = ''kim'', User_Online = False, User_CurrentConn = None, User_LastSeen = 0\<rparr>]
      else [])
   \<and> SearchUsers mapLower hub_kim [''bob'', ''k'', ''kim''] ''K'' ''bob'' =
       [\<lparr>User_Username = ''k'', User_Online = False, User_CurrentConn = None, User_LastSeen = 0\<rparr>,
        \<lparr>User_Username = ''kim'', User_Online = False, User_CurrentConn = None, User_LastSeen = 0\<rparr>]"
proof (rule conjI)
  show "SearchUsers mapLower hub_kim [''bob'', ''k'', ''kim''] kelvin_sign ''bob'' =
     (if Contains ''kim'' (mapLower kelvin_sign)
      then [\<lparr>User_Username = ''kim'', User_Online = False, User_CurrentConn = None, User_LastSeen = 0\<rparr>]
      else [])"
    by (simp add: SearchUsers_def hub_kim_def offline_user_def contains_def
        ToLower_kim ToLower_kelvin_sign length_kelvin_sign)
  show "SearchUsers mapLower hub_kim [''bob'', ''k'', ''kim''] ''K'' ''bob'' =
       [\<lparr>User_Username = ''k'', User_Online = False, User_CurrentConn = None, User_LastSeen = 0\<rparr>,
        \<lparr>User_Username = ''kim'', User_Online = False, User_CurrentConn = None, User_LastSeen = 0\<rparr>]"
    by code_simp
qed

section \<open>Backpressure\<close>

text \<open>
  C3. A delivery attempt to a registered connection whose queue is full returns
  at once: the queue is closed, the connection is deleted from the client
  table, and the frame is not kept in the queue (the connection does not stay
  registered with the frame dropped). Nothing else changes: every other
  registered connection stays registered with its queue as it was, and the
  user table and the logs are the same.
\<close>

theorem sendToClient_full_queue:
  assumes "hub_inv h" and "registered h client" and "full h client"
  shows "\<exists>h'. sendToClient h client msgType payload = Inr h'
     \<and> Chan_closed (chans h' (Client_Send client))
     \<and> Clients h' (Client_Username client) = None
     \<and> (\<forall>u. Clients h' u \<noteq> Some client)
     \<and> Chan_buf (chans h' (Client_Send client)) = Chan_buf (chans h (Client_Send client))
     \<and> (\<forall>u. u \<noteq> Client_Username client \<longrightarrow> Clients h' u = Clients h u)
     \<and> (\<forall>u c. Clients h u = Some c \<longrightarrow> c \<noteq> client \<longrightarrow>
            Clients h' u = Some c \<and> chans h' (Client_Send c) = chans h (Client_Send c))
     \<and> (\<forall>a. a \<noteq> Client_Send client \<longrightarrow> chans h' a = chans h a)
     \<and> Users h' = Users h \<and> Conversations h' = Conversations h \<and> hub_inv h'"
proof -
  let ?h' = "disconnect h client"
  from assms(2) have reg: "Clients h (Client_Username client) = Some client"
    by (simp add: registered_def)
  have send: "sendToClient h client msgType payload = Inr ?h'"
    using sendToClient_registered [OF assms(1) reg] assms(3) by (simp add: deliver_def)
  have gone: "\<forall>u. Clients ?h' u \<noteq> Some client"
    using registered_name [OF assms(1)] by (auto simp: disconnect_simps)
  have others: "\<forall>u c. Clients h u = Some c \<longrightarrow> c \<noteq> client \<longrightarrow>
            Clients ?h' u = Some c \<and> chans ?h' (Client_Send c) = chans h (Client_Send c)"
  proof (intro allI impI)
    fix u c assume c: "Clients h u = Some c" and ne: "c \<noteq> client"
    from c ne reg have u: "u \<noteq> Client_Username client" by auto
    with registered_distinct_chan [OF assms(1) c reg] have "Client_Send c \<noteq> Client_Send client"
      by simp
    with c u show "Clients ?h' u = Some c \<and> chans ?h' (Client_Send c) = chans h (Client_Send c)"
      by (simp add: disconnect_simps disconnect_other)
  qed
  have inv: "hub_inv ?h'" using assms(1,2) by (rule hub_inv_disconnect)
  from send gone others inv show ?thesis
    by (intro exI [of _ ?h']) (simp add: disconnect_simps disconnect_other)
qed

theorem sendToClient_full_queue_witness:
  "hub_inv hub_bob_full \<and> registered hub_bob_full bob_conn \<and> full hub_bob_full bob_conn
   \<and> (\<exists>h'. sendToClient hub_bob_full bob_conn ''typing'' (WSMessage_Payload (typing_envelope typing_to_bob)) = Inr h'
        \<and> Chan_closed (chans h' (Client_Send bob_conn))
        \<and> Clients h' ''bob'' = None
        \<and> Clients h' ''alice'' = Some alice_conn
        \<and> chans h' (Client_Send alice_conn) = chans hub_bob_full (Client_Send alice_conn))"
proof -
  note inv = hub_inv_hub_bob_full
  from bob_full have reg: "registered hub_bob_full bob_conn" and fl: "full hub_bob_full bob_conn"
    by simp_all
  have a: "Clients hub_bob_full ''alice'' = Some alice_conn" "alice_conn \<noteq> bob_conn"
    "Clients hub_bob_full ''bob'' = Some bob_conn"
    by (simp_all add: hub_bob_full_def alice_conn_def bob_conn_def)
  from sendToClient_full_queue [OF inv reg fl, of "''typing''" "WSMessage_Payload (typing_envelope typing_to_bob)"]
  obtain h' where h': "sendToClient hub_bob_full bob_conn ''typing'' (WSMessage_Payload (typing_envelope typing_to_bob)) = Inr h'"
     "Chan_closed (chans h' (Client_Send bob_conn))" "Clients h' (Client_Username bob_conn) = None"
     "\<forall>u c. Clients hub_bob_full u = Some c \<longrightarrow> c \<noteq> bob_conn \<longrightarrow>
            Clients h' u = Some c \<and> chans h' (Client_Send c) = chans hub_bob_full (Client_Send c)"
    by blast
  from h'(4) a have al: "Clients h' ''alice'' = Some alice_conn"
     "chans h' (Client_Send alice_conn) = chans hub_bob_full (Client_Send alice_conn)"
    by blast+
  from h'(3) have "Clients h' ''bob'' = None" by (simp add: bob_conn_def)
  with inv reg fl h'(1,2) al show ?thesis by blast
qed

section \<open>Typing signals\<close>

text \<open>
  C7, amended. On a well-formed hub state a typing signal whose recipient has no
  registered connection enqueues nothing, raises no error and leaves the state
  as it was. When the recipient's connection is registered and its queue has
  room, exactly one typing envelope with the sender's identity and the flag is
  appended to that queue and no other queue gains a frame. When the queue is
  full, no frame is enqueued: the queue is closed and the connection deleted.
\<close>

theorem handleTypingEvent_routes:
  assumes "hub_inv h"
  shows "(Clients h (Wrapper_To ev) = None \<longrightarrow> handleTypingEvent h ev = Inr h)
       \<and> (\<forall>rc. Clients h (Wrapper_To ev) = Some rc \<longrightarrow> \<not> full h rc \<longrightarrow>
              handleTypingEvent h ev = Inr (enqueue h rc (typing_envelope ev)) \<and> typing_delivered h ev rc)
       \<and> (\<forall>rc. Clients h (Wrapper_To ev) = Some rc \<longrightarrow> full h rc \<longrightarrow>
              handleTypingEvent h ev = Inr (disconnect h rc))"
proof (intro conjI allI impI)
  assume "Clients h (Wrapper_To ev) = None"
  then show "handleTypingEvent h ev = Inr h" by (simp add: handleTypingEvent_cases)
next
  fix rc assume rc: "Clients h (Wrapper_To ev) = Some rc" and nf: "\<not> full h rc"
  from rc nf show run: "handleTypingEvent h ev = Inr (enqueue h rc (typing_envelope ev))"
    by (simp add: handleTypingEvent_cases sendToClient_registered [OF assms rc] deliver_def envelope_typing)
  then show "typing_delivered h ev rc"
    by (simp add: typing_delivered_def new_frames_enqueue)
next
  fix rc assume rc: "Clients h (Wrapper_To ev) = Some rc" and f: "full h rc"
  then show "handleTypingEvent h ev = Inr (disconnect h rc)"
    by (simp add: handleTypingEvent_cases sendToClient_registered [OF assms rc] deliver_def)
qed

theorem handleTypingEvent_routes_witness:
  "hub_inv hub_bob_full \<and> Clients hub_bob_full (Wrapper_To typing_to_alice) = Some alice_conn
   \<and> \<not> full hub_bob_full alice_conn \<and> typing_delivered hub_bob_full typing_to_alice alice_conn"
proof -
  have rc: "Clients hub_bob_full (Wrapper_To typing_to_alice) = Some alice_conn"
    by (simp add: hub_bob_full_def typing_to_alice_def)
  have nf: "\<not> full hub_bob_full alice_conn"
    by (simp add: full_def hub_bob_full_def alice_conn_def empty_chan_def)
  from handleTypingEvent_routes [OF hub_inv_hub_bob_full, of typing_to_alice] rc nf
  have "typing_delivered hub_bob_full typing_to_alice alice_conn" by blast
  with hub_inv_hub_bob_full rc nf show ?thesis by blast
qed

text \<open>
  The claim as stated fails for a registered recipient whose queue is full:
  bob is registered, and the signal is not delivered to him.
\<close>

theorem handleTypingEvent_full_counterexample:
  "Clients hub_bob_full (Wrapper_To typing_to_bob) = Some bob_conn
   \<and> \<not> typing_delivered hub_bob_full typing_to_bob bob_conn"
proof -
  have rc: "Clients hub_bob_full (Wrapper_To typing_to_bob) = Some bob_conn"
    by (simp add: hub_bob_full_def typing_to_bob_def)
  from bob_full have f: "full hub_bob_full bob_conn" by simp
  have run: "handleTypingEvent hub_bob_full typing_to_bob = Inr (disconnect hub_bob_full bob_conn)"
    using rc f by (simp add: handleTypingEvent_cases sendToClient_registered [OF hub_inv_hub_bob_full rc] deliver_def)
  have "\<not> typing_delivered hub_bob_full typing_to_bob bob_conn"
    by (simp add: typing_delivered_def run new_frames_disconnect)
  with rc show ?thesis by simp
qed

section \<open>The unregister claim\<close>

text \<open>
  C4, amended. On a well-formed hub state, with the broadcast ranging over the
  table in any order: an unregister for a connection that is not the registered
  one of its identity leaves the whole hub state unchanged. Otherwise the call
  returns, the connection is deleted from the table, its user is marked offline
  with \<^verbatim>\<open>LastSeen\<close> set to the time of the call, its queue is closed when the
  queue is empty, and every other registered connection whose queue has room
  gains exactly the offline status envelope; one whose queue is full gains no
  frame and is closed and deleted. The logs are unchanged and the state stays
  well-formed. With an empty queue and no full queue among the others this is
  the effect the claim states.
\<close>

theorem unregisterClient_effect:
  assumes "hub_inv h"
    and "range_order ((Clients h)(Client_Username client := None)) ks"
  shows "(\<not> registered h client \<longrightarrow> unregisterClient h ks now client = Inr h)
   \<and> (registered h client \<longrightarrow>
        (\<exists>h' usr. unregisterClient h ks now client = Inr h'
           \<and> Clients h' (Client_Username client) = None
           \<and> Users h (Client_Username client) = Some usr
           \<and> Users h' = (Users h)(Client_Username client \<mapsto>
                 usr\<lparr>User_Online := False, User_CurrentConn := None, User_LastSeen := now\<rparr>)
           \<and> (Chan_buf (chans h (Client_Send client)) = [] \<longrightarrow>
                 Chan_closed (chans h' (Client_Send client)))
           \<and> (\<forall>u c. Clients h u = Some c \<longrightarrow> u \<noteq> Client_Username client \<longrightarrow>
                 (if full h c
                  then Clients h' u = None \<and> Chan_closed (chans h' (Client_Send c))
                       \<and> new_frames h h' (Client_Send c) = []
                  else Clients h' u = Some c
                       \<and> new_frames h h' (Client_Send c) =
                           [status_envelope (Client_Username client) False]))
           \<and> Conversations h' = Conversations h \<and> hub_inv h'))
   \<and> (registered h client \<longrightarrow> Chan_buf (chans h (Client_Send client)) = [] \<longrightarrow>
        (\<forall>u c. Clients h u = Some c \<longrightarrow> u \<noteq> Client_Username client \<longrightarrow> \<not> full h c) \<longrightarrow>
        unregister_effect h ks now client)"
proof (intro conjI impI)
  assume "\<not> registered h client"
  then show "unregisterClient h ks now client = Inr h" by (rule unregisterClient_stale)
next
  assume "registered h client"
  from unregisterClient_registered [OF assms(1) this assms(2)]
  show "\<exists>h' usr. unregisterClient h ks now client = Inr h'
           \<and> Clients h' (Client_Username client) = None
           \<and> Users h (Client_Username client) = Some usr
           \<and> Users h' = (Users h)(Client_Username client \<mapsto>
                 usr\<lparr>User_Online := False, User_CurrentConn := None, User_LastSeen := now\<rparr>)
           \<and> (Chan_buf (chans h (Client_Send client)) = [] \<longrightarrow>
                 Chan_closed (chans h' (Client_Send client)))
           \<and> (\<forall>u c. Clients h u = Some c \<longrightarrow> u \<noteq> Client_Username client \<longrightarrow>
                 (if full h c
                  then Clients h' u = None \<and> Chan_closed (chans h' (Client_Send c))
                       \<and> new_frames h h' (Client_Send c) = []
                  else Clients h' u = Some c
                       \<and> new_frames h h' (Client_Send c) =
                           [status_envelope (Client_Username client) False]))
           \<and> Conversations h' = Conversations h \<and> hub_inv h'" .
next
  assume reg: "registered h client" and empty: "Chan_buf (chans h (Client_Send client)) = []"
    and room: "\<forall>u c. Clients h u = Some c \<longrightarrow> u \<noteq> Client_Username client \<longrightarrow> \<not> full h c"
  from unregisterClient_registered [OF assms(1) reg assms(2), of now]
  obtain h' usr where h': "unregisterClient h ks now client = Inr h'"
     "Clients h' (Client_Username client) = None"
     "Users h' = (Users h)(Client_Username client \<mapsto>
                 usr\<lparr>User_Online := False, User_CurrentConn := None, User_LastSeen := now\<rparr>)"
     "Chan_buf (chans h (Client_Send client)) = [] \<longrightarrow> Chan_closed (chans h' (Client_Send client))"
     "\<forall>u c. Clients h u = Some c \<longrightarrow> u \<noteq> Client_Username client \<longrightarrow>
                 (if full h c
                  then Clients h' u = None \<and> Chan_closed (chans h' (Client_Send c))
                       \<and> new_frames h h' (Client_Send c) = []
                  else Clients h' u = Some c
                       \<and> new_frames h h' (Client_Send c) =
                           [status_envelope (Client_Username client) False])"
    by blast
  from h'(5) room have "\<forall>u c. Clients h u = Some c \<longrightarrow> u \<noteq> Client_Username client \<longrightarrow>
      new_frames h h' (Client_Send c) = [status_envelope (Client_Username client) False]"
    by (metis (full_types))
  with h'(1,2,3,4) empty show "unregister_effect h ks now client"
    unfolding unregister_effect_def by (intro exI [of _ h']) simp
qed

lemma hub_both_facts:
  "registered hub_both alice_conn" "registered hub_both bob_conn"
  "range_order ((Clients hub_both)(Client_Username alice_conn := None)) [''bob'']"
  "Chan_buf (chans hub_both (Client_Send alice_conn)) = []"
  "\<forall>u c. Clients hub_both u = Some c \<longrightarrow> \<not> full hub_both c"
  by (auto simp: registered_def range_order_def hub_both_def alice_conn_def bob_conn_def
      full_def empty_chan_def split: if_splits)

theorem unregisterClient_effect_witness:
  "hub_inv hub_both
   \<and> range_order ((Clients hub_both)(Client_Username alice_conn := None)) [''bob'']
   \<and> registered hub_both alice_conn
   \<and> Chan_buf (chans hub_both (Client_Send alice_conn)) = []
   \<and> \<not> full hub_both bob_conn
   \<and> unregister_effect hub_both [''bob''] 20 alice_conn"
proof -
  from hub_both_facts(5) have nf: "\<forall>u c. Clients hub_both u = Some c \<longrightarrow>
      u \<noteq> Client_Username alice_conn \<longrightarrow> \<not> full hub_both c" by blast
  from unregisterClient_effect [OF hub_inv_hub_both hub_both_facts(3), of 20]
       hub_both_facts(1,4) nf
  have "unregister_effect hub_both [''bob''] 20 alice_conn" by blast
  moreover have "\<not> full hub_both bob_conn"
    by (simp add: full_def hub_both_def bob_conn_def empty_chan_def)
  ultimately show ?thesis
    using hub_inv_hub_both hub_both_facts(1,3,4) by blast
qed

lemma hub_bob_full_facts:
  "registered hub_bob_full alice_conn"
  "range_order ((Clients hub_bob_full)(Client_Username alice_conn := None)) [''bob'']"
  "Clients hub_bob_full ''bob'' = Some bob_conn"
  "''bob'' \<noteq> Client_Username alice_conn"
  by (auto simp: registered_def range_order_def hub_bob_full_def alice_conn_def bob_conn_def
      split: if_splits)

text \<open>
  The claim as stated fails where another registered connection has a full
  queue: alice unregisters while bob's queue is full, and bob's queue does not
  gain the offline envelope.
\<close>

theorem unregisterClient_full_peer_counterexample:
  "hub_inv hub_bob_full \<and> registered hub_bob_full alice_conn
   \<and> range_order ((Clients hub_bob_full)(Client_Username alice_conn := None)) [''bob'']
   \<and> \<not> unregister_effect hub_bob_full [''bob''] 20 alice_conn"
proof -
  from unregisterClient_registered [OF hub_inv_hub_bob_full hub_bob_full_facts(1,2), of 20]
  obtain h' where h': "unregisterClient hub_bob_full [''bob''] 20 alice_conn = Inr h'"
    and others: "\<forall>u c. Clients hub_bob_full u = Some c \<longrightarrow> u \<noteq> Client_Username alice_conn \<longrightarrow>
                 (if full hub_bob_full c
                  then Clients h' u = None \<and> Chan_closed (chans h' (Client_Send c))
                       \<and> new_frames hub_bob_full h' (Client_Send c) = []
                  else Clients h' u = Some c
                       \<and> new_frames hub_bob_full h' (Client_Send c) =
                           [status_envelope (Client_Username alice_conn) False])"
    by blast
  from others hub_bob_full_facts(3,4) bob_full
  have nf: "new_frames hub_bob_full h' (Client_Send bob_conn) = []" by (metis (full_types))
  have "\<not> unregister_effect hub_bob_full [''bob''] 20 alice_conn"
  proof
    assume "unregister_effect hub_bob_full [''bob''] 20 alice_conn"
    then obtain h'' where "unregisterClient hub_bob_full [''bob''] 20 alice_conn = Inr h''"
      and "\<forall>u c. Clients hub_bob_full u = Some c \<longrightarrow> u \<noteq> Client_Username alice_conn \<longrightarrow>
               new_frames hub_bob_full h'' (Client_Send c) = [status_envelope (Client_Username alice_conn) False]"
      unfolding unregister_effect_def by blast
    with h' hub_bob_full_facts(3,4)
    have "new_frames hub_bob_full h' (Client_Send bob_conn) = [status_envelope (Client_Username alice_conn) False]"
      by auto
    with nf show False by simp
  qed
  with hub_inv_hub_bob_full hub_bob_full_facts(1,2) show ?thesis by blast
qed

text \<open>
  A pending frame at unregister time: the receive case of the select takes it,
  and the queue stays open.
\<close>

lemma unregisterClient_pending_frame:
  "registered hub_bob_full bob_conn
   \<and> (case unregisterClient hub_bob_full [''alice''] 20 bob_conn of
        Inl e \<Rightarrow> False
      | Inr h' \<Rightarrow> \<not> Chan_closed (chans h' (Client_Send bob_conn))
                 \<and> Chan_buf (chans h' (Client_Send bob_conn)) = []
                 \<and> Clients h' ''bob'' = None)"
  by (simp add: unregisterClient_def unregisterClient_select_def broadcastStatus_def
      sendToClient_def hub_bob_full_def registered_def bob_conn_def alice_conn_def empty_chan_def
      envelope_def Let_def)

section \<open>The frame of a route\<close>

text \<open>
  C10. On a well-formed hub state, a route in which neither the sender's nor the
  recipient's queue overflows returns, and appends exactly one message to the
  log under the canonical key of the pair, whoever is registered and whether
  or not the recipient was ever seen; the message is stored with status
  delivered when the recipient is registered and sent otherwise. Every other
  log, the client table and the user table are unchanged.
\<close>

theorem handleInbound_appends_one:
  assumes "hub_inv h" and "route_room h from (InboundMessage_To msg)"
  shows "\<exists>h'. handleInboundMessageWithSender h newID now from msg = Inr h'
     \<and> log_of h' (ConvKey from (InboundMessage_To msg)) =
         log_of h (ConvKey from (InboundMessage_To msg)) @
           [(new_message newID now from msg)
              \<lparr>Message_Status := (if Clients h (InboundMessage_To msg) = None then ''sent''
                                   else ''delivered'')\<rparr>]
     \<and> (\<forall>k. k \<noteq> ConvKey from (InboundMessage_To msg) \<longrightarrow> Conversations h' k = Conversations h k)
     \<and> Clients h' = Clients h \<and> Users h' = Users h"
proof -
  let ?h' = "routed h newID now from msg"
  have "handleInboundMessageWithSender h newID now from msg = Inr ?h'"
    using assms by (rule handleInbound_room)
  moreover have "log_of ?h' (ConvKey from (InboundMessage_To msg)) =
         log_of h (ConvKey from (InboundMessage_To msg)) @
           [(new_message newID now from msg)
              \<lparr>Message_Status := (if Clients h (InboundMessage_To msg) = None then ''sent''
                                   else ''delivered'')\<rparr>]"
    by (simp add: log_of_def routed_log)
  moreover have "\<forall>k. k \<noteq> ConvKey from (InboundMessage_To msg) \<longrightarrow> Conversations ?h' k = Conversations h k"
    by (simp add: routed_log)
  ultimately show ?thesis by (intro exI [of _ ?h']) (simp add: routed_tables)
qed

lemma alice_to_carol:
  "route_room hub_alice_online ''alice'' (InboundMessage_To hi_carol)"
  "Clients hub_alice_online (InboundMessage_To hi_carol) = None"
  "Users hub_alice_online (InboundMessage_To hi_carol) = None"
  by (simp_all add: route_room_def room_def hub_alice_online_def hi_carol_def alice_conn_def
      empty_chan_def)

theorem handleInbound_appends_one_witness:
  "hub_inv hub_alice_online \<and> route_room hub_alice_online ''alice'' (InboundMessage_To hi_carol)
   \<and> Users hub_alice_online (InboundMessage_To hi_carol) = None
   \<and> (\<exists>h'. handleInboundMessageWithSender hub_alice_online ''m1'' 30 ''alice'' hi_carol = Inr h'
         \<and> log_of h' (ConvKey ''alice'' (InboundMessage_To hi_carol)) =
             [new_message ''m1'' 30 ''alice'' hi_carol]
         \<and> Clients h' = Clients hub_alice_online \<and> Users h' = Users hub_alice_online)"
proof -
  from handleInbound_appends_one [OF hub_inv_hub_alice_online alice_to_carol(1), of "''m1''" 30]
  obtain h' where h': "handleInboundMessageWithSender hub_alice_online ''m1'' 30 ''alice'' hi_carol = Inr h'"
    "log_of h' (ConvKey ''alice'' (InboundMessage_To hi_carol)) =
         log_of hub_alice_online (ConvKey ''alice'' (InboundMessage_To hi_carol)) @
           [(new_message ''m1'' 30 ''alice'' hi_carol)
              \<lparr>Message_Status := (if Clients hub_alice_online (InboundMessage_To hi_carol) = None
                                   then ''sent'' else ''delivered'')\<rparr>]"
    "Clients h' = Clients hub_alice_online" "Users h' = Users hub_alice_online"
    by blast
  have "log_of hub_alice_online (ConvKey ''alice'' (InboundMessage_To hi_carol)) = []"
    by (simp add: log_of_def hub_alice_online_def)
  with h'(2) alice_to_carol(2)
  have "log_of h' (ConvKey ''alice'' (InboundMessage_To hi_carol)) = [new_message ''m1'' 30 ''alice'' hi_carol]"
    by (simp add: new_message_def)
  with h'(1,3,4) hub_inv_hub_alice_online alice_to_carol(1,3) show ?thesis by blast
qed

section \<open>Delivery and acknowledgment\<close>

text \<open>
  C2, amended. On a well-formed hub state: when connections for both the sender
  and the recipient are registered at call time and no queue overflows, the
  route returns, the sender's queue gains the confirmation with status sent
  and then exactly one ack with status delivered, the recipient's queue gains
  one message envelope with status delivered, and the stored message is
  delivered. When the recipient is not registered, the route returns, no queue
  gains an ack, no queue but the sender's gains a frame, and the message is
  stored with status sent.
\<close>

theorem handleInbound_delivery:
  assumes "hub_inv h"
  shows "(Clients h (InboundMessage_To msg) = None \<longrightarrow> undelivered_route h newID now from msg)
   \<and> (\<forall>sc rc. Clients h from = Some sc \<longrightarrow> Clients h (InboundMessage_To msg) = Some rc \<longrightarrow>
         route_room h from (InboundMessage_To msg) \<longrightarrow>
           delivered_route h newID now from msg
           \<and> handleInboundMessageWithSender h newID now from msg = Inr (routed h newID now from msg)
           \<and> (\<forall>a. new_frames h (routed h newID now from msg) a = routed_frames h newID now from msg a))"
  using handleInbound_undelivered [OF assms] handleInbound_delivered [OF assms]
    handleInbound_room [OF assms] new_frames_routed
  by blast

lemma alice_to_bob:
  "Clients hub_both ''alice'' = Some alice_conn"
  "Clients hub_both (InboundMessage_To hi_bob) = Some bob_conn"
  "route_room hub_both ''alice'' (InboundMessage_To hi_bob)"
  by (simp_all add: route_room_def room_def hub_both_def hi_bob_def alice_conn_def bob_conn_def
      empty_chan_def)

theorem handleInbound_delivery_witness:
  "hub_inv hub_both \<and> Clients hub_both ''alice'' = Some alice_conn
   \<and> Clients hub_both (InboundMessage_To hi_bob) = Some bob_conn
   \<and> route_room hub_both ''alice'' (InboundMessage_To hi_bob)
   \<and> delivered_route hub_both ''m1'' 30 ''alice'' hi_bob
   \<and> new_frames hub_both (routed hub_both ''m1'' 30 ''alice'' hi_bob) (Client_Send alice_conn) =
       [message_envelope (new_message ''m1'' 30 ''alice'' hi_bob) ''sent'',
        ack_envelope (new_message ''m1'' 30 ''alice'' hi_bob)]
   \<and> new_frames hub_both (routed hub_both ''m1'' 30 ''alice'' hi_bob) (Client_Send bob_conn) =
       [message_envelope (new_message ''m1'' 30 ''alice'' hi_bob) ''delivered'']"
proof -
  from handleInbound_delivery [OF hub_inv_hub_both, of hi_bob "''m1''" 30 "''alice''"] alice_to_bob
  have d: "delivered_route hub_both ''m1'' 30 ''alice'' hi_bob"
    and f: "\<forall>a. new_frames hub_both (routed hub_both ''m1'' 30 ''alice'' hi_bob) a =
              routed_frames hub_both ''m1'' 30 ''alice'' hi_bob a"
    by blast+
  have fa: "routed_frames hub_both ''m1'' 30 ''alice'' hi_bob (Client_Send alice_conn) =
       [message_envelope (new_message ''m1'' 30 ''alice'' hi_bob) ''sent'',
        ack_envelope (new_message ''m1'' 30 ''alice'' hi_bob)]"
    by (simp add: routed_frames_def Let_def hub_both_def hi_bob_def alice_conn_def bob_conn_def)
  have fb: "routed_frames hub_both ''m1'' 30 ''alice'' hi_bob (Client_Send bob_conn) =
       [message_envelope (new_message ''m1'' 30 ''alice'' hi_bob) ''delivered'']"
    by (simp add: routed_frames_def Let_def hub_both_def hi_bob_def alice_conn_def bob_conn_def)
  from d f fa fb hub_inv_hub_both alice_to_bob show ?thesis by simp
qed

text \<open>
  The claim as stated fails where the recipient is registered and the sender is
  not (its connection was dropped while its reader was still routing): the
  message is delivered and stored as delivered, and no queue gains an ack.
\<close>

theorem handleInbound_no_sender_counterexample:
  "Clients hub_bob_only (InboundMessage_To hi_bob) = Some bob_conn
   \<and> \<not> delivered_route hub_bob_only ''m1'' 30 ''alice'' hi_bob
   \<and> handleInboundMessageWithSender hub_bob_only ''m1'' 30 ''alice'' hi_bob =
       Inr (routed hub_bob_only ''m1'' 30 ''alice'' hi_bob)
   \<and> Chan_buf (chans (routed hub_bob_only ''m1'' 30 ''alice'' hi_bob) (Client_Send bob_conn)) =
       [message_envelope (new_message ''m1'' 30 ''alice'' hi_bob) ''delivered'']
   \<and> (\<forall>a. filter is_ack (Chan_buf (chans (routed hub_bob_only ''m1'' 30 ''alice'' hi_bob) a)) = [])"
proof -
  have rc: "Clients hub_bob_only (InboundMessage_To hi_bob) = Some bob_conn"
    and sn: "Clients hub_bob_only ''alice'' = None"
    and rm: "route_room hub_bob_only ''alice'' (InboundMessage_To hi_bob)"
    by (simp_all add: hub_bob_only_def hi_bob_def route_room_def room_def bob_conn_def empty_chan_def)
  have nd: "\<not> delivered_route hub_bob_only ''m1'' 30 ''alice'' hi_bob"
    using sn by (simp add: delivered_route_def Let_def)
  have run: "handleInboundMessageWithSender hub_bob_only ''m1'' 30 ''alice'' hi_bob =
       Inr (routed hub_bob_only ''m1'' 30 ''alice'' hi_bob)"
    using hub_inv_hub_bob_only rm by (rule handleInbound_room)
  have empty: "Chan_buf (chans hub_bob_only a) = []" for a
    by (simp add: hub_bob_only_def empty_chan_def)
  have frames: "Chan_buf (chans (routed hub_bob_only ''m1'' 30 ''alice'' hi_bob) a) =
       (if a = Client_Send bob_conn
        then [message_envelope (new_message ''m1'' 30 ''alice'' hi_bob) ''delivered''] else [])" for a
    using rc sn by (auto simp: routed_buf routed_frames_def Let_def empty)
  from rc nd run frames show ?thesis by (simp add: envelope_kinds)
qed

section \<open>The conversation list\<close>

lemma set_insert_Slice: "set (insert_Slice lt x ys) = insert x (set ys)"
  by (induction ys) auto

lemma set_sort_Slice: "set (sort_Slice lt xs) = set xs"
  by (induction xs) (auto simp: set_insert_Slice)

lemma distinct_insert_Slice:
  "distinct (map f (insert_Slice lt x ys)) \<longleftrightarrow> f x \<notin> f ` set ys \<and> distinct (map f ys)"
  by (induction ys) (auto simp: set_insert_Slice)

lemma distinct_sort_Slice: "distinct (map f (sort_Slice lt xs)) \<longleftrightarrow> distinct (map f xs)"
  by (induction xs) (auto simp: distinct_insert_Slice set_sort_Slice)

lemma sorted_insert_Slice:
  fixes key :: "'a \<Rightarrow> int"
  shows "sorted_wrt (\<lambda>a b. key a \<ge> key b) ys
     \<Longrightarrow> sorted_wrt (\<lambda>a b. key a \<ge> key b) (insert_Slice (\<lambda>a b. key a > key b) x ys)"
  by (induction ys) (auto simp: set_insert_Slice)

lemma sorted_sort_Slice:
  fixes key :: "'a \<Rightarrow> int"
  shows "sorted_wrt (\<lambda>a b. key a \<ge> key b) (sort_Slice (\<lambda>a b. key a > key b) xs)"
  by (induction xs) (auto simp: sorted_insert_Slice)

lemma loop_step:
  "GetConversations_loop h username (k # ks) acc seen =
     (case Conversations h k of
        None \<Rightarrow> GetConversations_loop h username ks acc seen
      | Some ms \<Rightarrow>
          if ms = [] then GetConversations_loop h username ks acc seen
          else (case peer_of (last ms) username of
                  None \<Rightarrow> GetConversations_loop h username ks acc seen
                | Some peer \<Rightarrow>
                    if seen peer then GetConversations_loop h username ks acc seen
                    else GetConversations_loop h username ks
                           (acc @ [conv_entry h (last ms) peer]) (seen(peer := True))))"
  by (auto simp: Let_def conv_entry_def last_conv_nth split: option.splits)

lemma loop_peers:
  assumes "\<forall>p. seen p \<longleftrightarrow> p \<in> PeerUsername ` set acc" and "distinct (map PeerUsername acc)"
  shows "distinct (map PeerUsername (GetConversations_loop h username ks acc seen))
     \<and> PeerUsername ` set (GetConversations_loop h username ks acc seen) =
         PeerUsername ` set acc \<union>
           {p. \<exists>k \<in> set ks. \<exists>ms. Conversations h k = Some ms \<and> ms \<noteq> []
                 \<and> peer_of (last ms) username = Some p}
     \<and> (\<forall>e \<in> set (GetConversations_loop h username ks acc seen).
           e \<in> set acc \<or> (\<exists>m. touching h username (PeerUsername e) m \<and> e = conv_entry h m (PeerUsername e)))"
  using assms
proof (induction ks arbitrary: acc seen)
  case Nil
  then show ?case by simp
next
  case (Cons k ks)
  note IH = Cons.IH [OF Cons.prems]
  show ?case
  proof (cases "Conversations h k")
    case None
    with IH show ?thesis by (simp del: GetConversations_loop.simps add: loop_step)
  next
    case (Some ms)
    show ?thesis
    proof (cases "ms = []")
      case True
      with Some IH show ?thesis by (simp del: GetConversations_loop.simps add: loop_step)
    next
      case ne: False
      show ?thesis
      proof (cases "peer_of (last ms) username")
        case None
        with Some ne IH show ?thesis by (simp del: GetConversations_loop.simps add: loop_step)
      next
        case (Some peer)
        note pr = Some
        show ?thesis
        proof (cases "seen peer")
          case True
          with Cons.prems(1) have "peer \<in> PeerUsername ` set acc" by simp
          with \<open>Conversations h k = Some ms\<close> ne pr True IH show ?thesis
            by (simp del: GetConversations_loop.simps add: loop_step) blast
        next
          case False
          let ?e = "conv_entry h (last ms) peer"
          let ?acc = "acc @ [?e]"
          let ?seen = "seen(peer := True)"
          have pe: "PeerUsername ?e = peer" by (simp add: conv_entry_def)
          from False Cons.prems(1) have notin: "peer \<notin> PeerUsername ` set acc" by simp
          have s': "\<forall>p. ?seen p \<longleftrightarrow> p \<in> PeerUsername ` set ?acc"
            using Cons.prems(1) by (auto simp: pe)
          have d': "distinct (map PeerUsername ?acc)"
            using Cons.prems(2) notin by (simp add: pe)
          have tch: "touching h username peer (last ms)"
            unfolding touching_def using \<open>Conversations h k = Some ms\<close> ne pr by blast
          have step: "GetConversations_loop h username (k # ks) acc seen =
                      GetConversations_loop h username ks ?acc ?seen"
            using \<open>Conversations h k = Some ms\<close> ne pr False
            by (simp del: GetConversations_loop.simps add: loop_step)
          let ?r = "GetConversations_loop h username ks ?acc ?seen"
          let ?P = "\<lambda>ks. {p. \<exists>k \<in> set ks. \<exists>ms. Conversations h k = Some ms \<and> ms \<noteq> []
                 \<and> peer_of (last ms) username = Some p}"
          from Cons.IH [OF s' d']
          have r1: "distinct (map PeerUsername ?r)"
            and r2: "PeerUsername ` set ?r = PeerUsername ` set ?acc \<union> ?P ks"
            and r3: "\<forall>e \<in> set ?r. e \<in> set ?acc \<or>
                  (\<exists>m. touching h username (PeerUsername e) m \<and> e = conv_entry h m (PeerUsername e))"
            by blast+
          have pk: "?P (k # ks) = insert peer (?P ks)"
            using \<open>Conversations h k = Some ms\<close> ne pr by auto
          have c2: "PeerUsername ` set ?r = PeerUsername ` set acc \<union> ?P (k # ks)"
            unfolding r2 pk by (auto simp: pe)
          have c3: "\<forall>e \<in> set ?r. e \<in> set acc \<or>
                  (\<exists>m. touching h username (PeerUsername e) m \<and> e = conv_entry h m (PeerUsername e))"
          proof
            fix e assume "e \<in> set ?r"
            with r3 have "e \<in> set ?acc \<or>
                  (\<exists>m. touching h username (PeerUsername e) m \<and> e = conv_entry h m (PeerUsername e))"
              by blast
            then show "e \<in> set acc \<or>
                  (\<exists>m. touching h username (PeerUsername e) m \<and> e = conv_entry h m (PeerUsername e))"
            proof
              assume "e \<in> set ?acc"
              then have "e \<in> set acc \<or> e = ?e" by auto
              then show ?thesis using tch pe by auto
            qed blast
          qed
          from r1 c2 c3 show ?thesis unfolding step by blast
        qed
      qed
    qed
  qed
qed


text \<open>
  C6. For every identity and every hub state, with the logs ranged over in any
  order, the list has no two entries with the same \<^verbatim>\<open>peerUsername\<close>, is
  ordered by \<^verbatim>\<open>lastMessageTime\<close> descending, and its peers are exactly the
  peers of the most recent messages of the non-empty logs that touch the
  identity; every entry carries the content and time of such a message and
  that peer's presence.
\<close>

theorem GetConversations_distinct_sorted:
  assumes "range_order (Conversations h) ks"
  shows "distinct (map PeerUsername (GetConversations h ks username))
     \<and> newest_first (GetConversations h ks username)
     \<and> PeerUsername ` set (GetConversations h ks username) = {p. \<exists>m. touching h username p m}
     \<and> (\<forall>e \<in> set (GetConversations h ks username).
           \<exists>m. touching h username (PeerUsername e) m \<and> e = conv_entry h m (PeerUsername e))"
proof -
  let ?l = "GetConversations_loop h username ks [] (\<lambda>_. False)"
  have init: "\<forall>p. (\<lambda>_. False) p \<longleftrightarrow> p \<in> PeerUsername ` set ([] :: Conversation list)"
    "distinct (map PeerUsername ([] :: Conversation list))" by simp_all
  from loop_peers [OF init, of h username ks]
  have l1: "distinct (map PeerUsername ?l)"
    and l2: "PeerUsername ` set ?l = {p. \<exists>k \<in> set ks. \<exists>ms. Conversations h k = Some ms \<and> ms \<noteq> []
                 \<and> peer_of (last ms) username = Some p}"
    and l3: "\<forall>e \<in> set ?l. \<exists>m. touching h username (PeerUsername e) m \<and> e = conv_entry h m (PeerUsername e)"
    by simp_all
  from assms have ks: "set ks = dom (Conversations h)" by (simp add: range_order_def)
  have "{p. \<exists>k \<in> set ks. \<exists>ms. Conversations h k = Some ms \<and> ms \<noteq> []
                 \<and> peer_of (last ms) username = Some p} = {p. \<exists>m. touching h username p m}"
    unfolding ks touching_def by auto
  with l2 have l2': "PeerUsername ` set ?l = {p. \<exists>m. touching h username p m}" by simp
  show ?thesis
    unfolding GetConversations_def newest_first_def
    using l1 l2' l3 by (simp add: distinct_sort_Slice set_sort_Slice sorted_sort_Slice)
qed

lemma hub_logs_order:
  "range_order (Conversations hub_logs) [''alice|bob'', ''alice|carol'', ''bob|carol'']"
  by (auto simp: range_order_def hub_logs_def split: if_splits)

lemma hub_logs_list:
  "map PeerUsername (GetConversations hub_logs [''alice|bob'', ''alice|carol'', ''bob|carol''] ''alice'')
     = [''carol'', ''bob'']"
  "map LastMessageTime (GetConversations hub_logs [''alice|bob'', ''alice|carol'', ''bob|carol''] ''alice'')
     = [9, 5]"
  by (simp_all add: GetConversations_def hub_logs_def peer_of_def)

theorem GetConversations_distinct_sorted_witness:
  "range_order (Conversations hub_logs) [''alice|bob'', ''alice|carol'', ''bob|carol'']
   \<and> map PeerUsername (GetConversations hub_logs [''alice|bob'', ''alice|carol'', ''bob|carol''] ''alice'')
       = [''carol'', ''bob'']
   \<and> map LastMessageTime (GetConversations hub_logs [''alice|bob'', ''alice|carol'', ''bob|carol''] ''alice'')
       = [9, 5]
   \<and> distinct (map PeerUsername
         (GetConversations hub_logs [''alice|bob'', ''alice|carol'', ''bob|carol''] ''alice''))
   \<and> newest_first (GetConversations hub_logs [''alice|bob'', ''alice|carol'', ''bob|carol''] ''alice'')
   \<and> PeerUsername ` set (GetConversations hub_logs [''alice|bob'', ''alice|carol'', ''bob|carol''] ''alice'')
       = {p. \<exists>m. touching hub_logs ''alice'' p m}"
  using GetConversations_distinct_sorted [OF hub_logs_order, of "''alice''"] hub_logs_order hub_logs_list
  by blast

section \<open>Users are never removed\<close>

text \<open>
  C8. Over every history of registrations, unregistrations, message routes and
  typing signals that returns, every entry of the user table is still there,
  under the same name; the queue-overflow cleanup of \<^verbatim>\<open>sendToClient\<close> leaves the
  user table as it is; and unregistering the registered connection of an
  identity only rewrites that identity's entry: offline, no connection, and
  \<^verbatim>\<open>LastSeen\<close> set to the time of the call. The queries are functions of the
  hub state and return no state.
\<close>

theorem users_never_removed:
  "(run h evs = Inr h' \<longrightarrow> keeps_users h h')
   \<and> (sendToClient h c t p = Inr h' \<longrightarrow> Users h' = Users h)
   \<and> (unregisterClient h ks now client = Inr h' \<longrightarrow>
        Clients h (Client_Username client) = Some client \<longrightarrow>
        Users h (Client_Username client) = Some usr \<longrightarrow>
        Users h' = (Users h)(Client_Username client \<mapsto>
           usr\<lparr>User_Online := False, User_CurrentConn := None, User_LastSeen := now\<rparr>))"
proof (intro conjI impI)
  assume "run h evs = Inr h'"
  then show "keeps_users h h'" by (rule run_keeps)
next
  assume "sendToClient h c t p = Inr h'"
  from sendToClient_Inr [OF this] show "Users h' = Users h" by (simp add: deliver_simps)
next
  assume "unregisterClient h ks now client = Inr h'"
    and "Clients h (Client_Username client) = Some client"
    and "Users h (Client_Username client) = Some usr"
  with unregisterClient_Users [of h ks now client h']
  show "Users h' = (Users h)(Client_Username client \<mapsto>
           usr\<lparr>User_Online := False, User_CurrentConn := None, User_LastSeen := now\<rparr>)"
    by (simp add: mark_offline_simps)
qed

theorem users_never_removed_witness:
  "\<exists>h'. run hub_both [Unregister [''bob''] 20 alice_conn, RouteTyping typing_to_alice] = Inr h'
     \<and> keeps_users hub_both h'
     \<and> (\<exists>usr'. Users h' ''alice'' = Some usr' \<and> User_Username usr' = ''alice'')"
proof -
  from unregisterClient_registered [OF hub_inv_hub_both hub_both_facts(1,3), of 20]
  obtain h1 where h1: "unregisterClient hub_both [''bob''] 20 alice_conn = Inr h1"
    and c1: "Clients h1 (Client_Username alice_conn) = None" by blast
  from c1 have "Clients h1 (Wrapper_To typing_to_alice) = None"
    by (simp add: typing_to_alice_def alice_conn_def)
  then have "handleTypingEvent h1 typing_to_alice = Inr h1" by (simp add: handleTypingEvent_cases)
  with h1 have run: "run hub_both [Unregister [''bob''] 20 alice_conn, RouteTyping typing_to_alice] = Inr h1"
    by simp
  have a: "Users hub_both ''alice'' = Some \<lparr>User_Username = ''alice'', User_Online = True,
                               User_CurrentConn = Some alice_conn, User_LastSeen = 10\<rparr>"
    by (simp add: hub_both_def)
  from users_never_removed [of hub_both "[Unregister [''bob''] 20 alice_conn, RouteTyping typing_to_alice]" h1]
    run
  have k: "keeps_users hub_both h1" by blast
  with a have "\<exists>usr'. Users h1 ''alice'' = Some usr' \<and> User_Username usr' = ''alice''"
    unfolding keeps_users_def by fastforce
  with run k show ?thesis by blast
qed

section \<open>Registration under a full replay\<close>

text \<open>
  C1. The eviction the claim describes holds (\<open>registerClient_evicts\<close>: on a
  well-formed state, for a fresh connection whose queue takes the replayed
  presence frames, the call returns true, the old connection's queue is closed
  and the old connection is registered nowhere, and the new one is installed),
  and a returned state is well-formed (\<open>hub_inv_registerClient\<close>). But the
  call does not always return. With 258 users online, the second loop of
  \<^verbatim>\<open>registerClient\<close> sends 258 status frames to the new connection, whose
  queue holds 256: the 257th send closes the queue and deletes the entry, and
  the 258th send is a send on a closed channel, on which Go panics.
\<close>

theorem registerClient_crowd_panics:
  "registerClient (crowd 258) (''new'' # crowd_names 258) (''new'' # crowd_names 258) 99 newcomer
     = Inl SendOnClosedChannel"
proof -
  have "Chan_cap (chans (crowd 258) (Client_Send newcomer))
          - length (Chan_buf (chans (crowd 258) (Client_Send newcomer))) + 2
        \<le> length (replay_targets (crowd 258) newcomer (''new'' # crowd_names 258))"
    by (simp add: crowd_targets) (simp add: crowd_def empty_chan_def crowd_names_def)
  with hub_inv_crowd fresh_crowd show ?thesis by (rule registerClient_overflow)
qed

end
